theory Spec2Isabelle
  imports Main "HOL-Library.AList"
begin

section \<open>Python values, exceptions and the built-in dict\<close>

text \<open>
  A Python object used as a key or as a cached result is an \<open>'a option\<close>: \<open>None\<close> is
  Python's \<open>None\<close> (the root link of an LRU holds it in its key and result fields), and
  \<open>Some x\<close> is any other object. Exceptions are values; \<open>Raised\<close> stands for
  whatever else a user callback raises, under a name.
\<close>

datatype 'k exn = KeyError 'k | IndexError | Raised string

text \<open>
  The built-in dict, as an association list with one pair per key. \<open>d[k] = v\<close> is
  \<open>AList.update\<close>, \<open>d[k]\<close> is \<open>map_of\<close>, \<open>len(d)\<close> is the length of the list, and
  \<open>del d[k]\<close> raises KeyError on an absent key.
\<close>

definition dict_contains :: "('k \<times> 'a) list \<Rightarrow> 'k \<Rightarrow> bool" where
  "dict_contains d k = (map_of d k \<noteq> None)"

definition dict_delitem :: "('k \<times> 'a) list \<Rightarrow> 'k \<Rightarrow> 'k exn + ('k \<times> 'a) list" where
  "dict_delitem d k =
     (if dict_contains d k then Inr (AList.delete k d) else Inl (KeyError k))"

text \<open>\<open>dict(pairs)\<close>: a later pair replaces an earlier one with the same key.\<close>

definition dict_of_pairs :: "('k \<times> 'a) list \<Rightarrow> ('k \<times> 'a) list" where
  "dict_of_pairs ps = fold (\<lambda>(k, v) d. AList.update k v d) ps []"

text \<open>
  Equality of two plain dicts: the same number of keys, and every key of the left one is
  a key of the right one with an equal value.
\<close>

definition dict_eq :: "('k \<times> 'a) list \<Rightarrow> ('k \<times> 'a) list \<Rightarrow> bool" where
  "dict_eq a b = (length a = length b \<and> list_all (\<lambda>(k, v). map_of b k = Some v) a)"

section \<open>BasicCache\<close>

text \<open>
  \<open>class BasicCache(dict)\<close>: the dict itself is \<open>store\<close>; \<open>size\<close> is \<open>size_bc\<close>
  (a Python int, so it may be zero or negative), \<open>_queue\<close> is \<open>queue\<close> with its left
  end at the head of the list.
\<close>

record ('k, 'v) BasicCache =
  store :: "('k \<times> 'v) list"
  size_bc :: int
  on_miss :: "'k \<Rightarrow> 'k exn + 'v"
  queue :: "'k list"

definition BasicCache_init :: "int \<Rightarrow> ('k \<Rightarrow> 'k exn + 'v) \<Rightarrow> ('k, 'v) BasicCache" where
  "BasicCache_init n f = \<lparr>store = [], size_bc = n, on_miss = f, queue = []\<rparr>"

definition BasicCache_missing ::
  "('k, 'v) BasicCache \<Rightarrow> 'k \<Rightarrow> ('k exn + 'v) \<times> ('k, 'v) BasicCache" where
  "BasicCache_missing self k =
     (case on_miss self k of
        Inl e \<Rightarrow> (Inl e, self)
      | Inr ret \<Rightarrow>
          (let s1 = self\<lparr>store := AList.update k ret (store self)\<rparr>;
               s2 = s1\<lparr>queue := queue s1 @ [k]\<rparr>
           in if int (length (queue s2)) > size_bc s2 then
                (case queue s2 of
                   [] \<Rightarrow> (Inl IndexError, s2)
                 | old # rest \<Rightarrow>
                     (let s3 = s2\<lparr>queue := rest\<rparr>
                      in case dict_delitem (store s3) old of
                           Inl e \<Rightarrow> (Inl e, s3)
                         | Inr d \<Rightarrow> (Inr ret, s3\<lparr>store := d\<rparr>)))
              else (Inr ret, s2)))"

text \<open>\<open>bc[key]\<close>: the dict lookup, and \<open>__missing__\<close> on an absent key.\<close>

definition BasicCache_getitem ::
  "('k, 'v) BasicCache \<Rightarrow> 'k \<Rightarrow> ('k exn + 'v) \<times> ('k, 'v) BasicCache" where
  "BasicCache_getitem self k =
     (case map_of (store self) k of
        Some v \<Rightarrow> (Inr v, self)
      | None \<Rightarrow> BasicCache_missing self k)"

text \<open>A run of lookups; it stops at the first exception, as the caller's loop would.\<close>

fun BasicCache_getitems ::
  "('k, 'v) BasicCache \<Rightarrow> 'k list \<Rightarrow> ('k exn + 'v list) \<times> ('k, 'v) BasicCache" where
  "BasicCache_getitems self [] = (Inr [], self)"
| "BasicCache_getitems self (k # ks) =
     (case BasicCache_getitem self k of
        (Inl e, s) \<Rightarrow> (Inl e, s)
      | (Inr v, s) \<Rightarrow>
          (case BasicCache_getitems s ks of
             (Inl e, s') \<Rightarrow> (Inl e, s')
           | (Inr vs, s') \<Rightarrow> (Inr (v # vs), s')))"

text \<open>\<open>str.upper\<close> on ASCII text, the callback of the cache's own test.\<close>

definition upper_char :: "char \<Rightarrow> char" where
  "upper_char c =
     (if (97::nat) \<le> of_char c \<and> of_char c \<le> (122::nat)
      then char_of (of_char c - (32::nat)) else c)"

definition upper :: "string \<Rightarrow> string exn + string" where
  "upper s = Inr (map upper_char s)"

section \<open>LRU\<close>

text \<open>
  A link is the four-element list \<open>[PREV, NEXT, KEY, RESULT]\<close>. Links are shared and
  mutated in place, so they live in a heap: a list of links addressed by position,
  where a new link is appended. \<open>class LRU(dict)\<close>: the dict itself is \<open>entries\<close>, from
  a key to the address of its link.
\<close>

record ('k, 'v) link =
  PREV :: nat
  NEXT :: nat
  KEY :: "'k option"
  RESULT :: "'v option"

record ('k, 'v) LRU =
  entries :: "('k option \<times> nat) list"
  heap :: "('k, 'v) link list"
  root :: nat
  max_size :: int
  hit_count :: int
  miss_count :: int
  soft_miss_count :: int

text \<open>\<open>len(self) < self.max_size\<close> appends a new link; otherwise the root is reused.
  \<open>self.root\<close> is read and never assigned.\<close>

definition LRU_setitem ::
  "('k, 'v) LRU \<Rightarrow> 'k option \<Rightarrow> 'v option \<Rightarrow> ('k option exn + unit) \<times> ('k, 'v) LRU" where
  "LRU_setitem self k v =
     (let r = root self; h = heap self in
      if int (length (entries self)) < max_size self then
        (let last = PREV (h ! r);
             lnk = length h;
             h1 = h @ [\<lparr>PREV = last, NEXT = r, KEY = k, RESULT = v\<rparr>];
             h2 = h1[last := (h1 ! last)\<lparr>NEXT := lnk\<rparr>];
             h3 = h2[r := (h2 ! r)\<lparr>PREV := lnk\<rparr>]
         in (Inr (), self\<lparr>entries := AList.update k lnk (entries self), heap := h3\<rparr>))
      else
        (let oldroot = r;
             h1 = h[oldroot := (h ! oldroot)\<lparr>KEY := k\<rparr>];
             h2 = h1[oldroot := (h1 ! oldroot)\<lparr>RESULT := v\<rparr>];
             r' = NEXT (h2 ! oldroot);
             oldkey = KEY (h2 ! r');
             h3 = h2[r' := (h2 ! r')\<lparr>KEY := None, RESULT := None\<rparr>];
             s1 = self\<lparr>heap := h3\<rparr>
         in case dict_delitem (entries s1) oldkey of
              Inl e \<Rightarrow> (Inl e, s1)
            | Inr d \<Rightarrow> (Inr (), s1\<lparr>entries := AList.update k oldroot d\<rparr>)))"

text \<open>\<open>self[key]\<close>. Every value stored in the dict is a link, so the branch
  \<open>link is not None\<close> is always taken.\<close>

definition LRU_getitem ::
  "('k, 'v) LRU \<Rightarrow> 'k option \<Rightarrow> ('k option exn + 'v option) \<times> ('k, 'v) LRU" where
  "LRU_getitem self k =
     (case map_of (entries self) k of
        None \<Rightarrow> (Inl (KeyError k), self\<lparr>miss_count := miss_count self + 1\<rparr>)
      | Some lnk \<Rightarrow>
          (let r = root self; h = heap self;
               link_prev = PREV (h ! lnk);
               link_next = NEXT (h ! lnk);
               res = RESULT (h ! lnk);
               h1 = h[link_prev := (h ! link_prev)\<lparr>NEXT := link_next\<rparr>];
               h2 = h1[link_next := (h1 ! link_next)\<lparr>PREV := link_prev\<rparr>];
               last = PREV (h2 ! r);
               h3 = h2[last := (h2 ! last)\<lparr>NEXT := lnk\<rparr>];
               h4 = h3[r := (h3 ! r)\<lparr>PREV := lnk\<rparr>];
               h5 = h4[lnk := (h4 ! lnk)\<lparr>PREV := last\<rparr>];
               h6 = h5[lnk := (h5 ! lnk)\<lparr>NEXT := r\<rparr>]
           in (Inr res, self\<lparr>heap := h6, hit_count := hit_count self + 1\<rparr>)))"

text \<open>\<open>get(key, default)\<close>: only KeyError is caught.\<close>

definition LRU_get ::
  "('k, 'v) LRU \<Rightarrow> 'k option \<Rightarrow> 'v option \<Rightarrow> ('k option exn + 'v option) \<times> ('k, 'v) LRU" where
  "LRU_get self k dflt =
     (case LRU_getitem self k of
        (Inr res, s) \<Rightarrow> (Inr res, s)
      | (Inl (KeyError _), s) \<Rightarrow> (Inr dflt, s\<lparr>soft_miss_count := soft_miss_count s + 1\<rparr>)
      | (Inl e, s) \<Rightarrow> (Inl e, s))"

text \<open>\<open>del self[key]\<close> is the inherited \<open>dict.__delitem__\<close>: it knows nothing of links.\<close>

definition LRU_delitem ::
  "('k, 'v) LRU \<Rightarrow> 'k option \<Rightarrow> ('k option exn + unit) \<times> ('k, 'v) LRU" where
  "LRU_delitem self k =
     (case dict_delitem (entries self) k of
        Inl e \<Rightarrow> (Inl e, self)
      | Inr d \<Rightarrow> (Inr (), self\<lparr>entries := d\<rparr>))"

text \<open>
  \<open>update(E, **F)\<close>. \<open>E\<close> is the cache itself, a plain dict (it has \<open>keys\<close>) or an
  iterable of pairs; \<open>F\<close> holds the keyword arguments.
\<close>

datatype ('k, 'v) update_source =
  SelfSource
  | DictSource "('k option \<times> 'v option) list"
  | PairsSource "('k option \<times> 'v option) list"

fun update_keys ::
  "('k, 'v) LRU \<Rightarrow> ('k option \<times> 'v option) list \<Rightarrow> 'k option list
     \<Rightarrow> ('k option exn + unit) \<times> ('k, 'v) LRU" where
  "update_keys self E [] = (Inr (), self)"
| "update_keys self E (k # ks) =
     (case map_of E k of
        None \<Rightarrow> (Inl (KeyError k), self)
      | Some v \<Rightarrow>
          (case LRU_setitem self k v of
             (Inl e, s) \<Rightarrow> (Inl e, s)
           | (Inr _, s) \<Rightarrow> update_keys s E ks))"

fun update_pairs ::
  "('k, 'v) LRU \<Rightarrow> 'k option list \<Rightarrow> ('k option \<times> 'v option) list
     \<Rightarrow> ('k option exn + unit) \<times> ('k, 'v) LRU" where
  "update_pairs self seen [] = (Inr (), self)"
| "update_pairs self seen ((k, v) # rest) =
     (if k \<notin> set seen \<and> dict_contains (entries self) k then
        (case LRU_delitem self k of
           (Inl e, s) \<Rightarrow> (Inl e, s)
         | (Inr _, s) \<Rightarrow>
             (case LRU_setitem s k v of
                (Inl e, s') \<Rightarrow> (Inl e, s')
              | (Inr _, s') \<Rightarrow> update_pairs s' (k # seen) rest))
      else
        (case LRU_setitem self k v of
           (Inl e, s') \<Rightarrow> (Inl e, s')
         | (Inr _, s') \<Rightarrow> update_pairs s' seen rest))"

definition LRU_update ::
  "('k, 'v) LRU \<Rightarrow> ('k, 'v) update_source \<Rightarrow> ('k option \<times> 'v option) list
     \<Rightarrow> ('k option exn + unit) \<times> ('k, 'v) LRU" where
  "LRU_update self E F =
     (case E of
        SelfSource \<Rightarrow> (Inr (), self)
      | DictSource d \<Rightarrow>
          (case update_keys self d (map fst d) of
             (Inl e, s) \<Rightarrow> (Inl e, s)
           | (Inr _, s) \<Rightarrow> update_keys s F (map fst F))
      | PairsSource ps \<Rightarrow>
          (case update_pairs self [] ps of
             (Inl e, s) \<Rightarrow> (Inl e, s)
           | (Inr _, s) \<Rightarrow> update_keys s F (map fst F)))"

text \<open>
  \<open>LRU(max_size, values=...)\<close>. The root link is at address 0 and points to itself;
  \<open>if values:\<close> is true of a non-empty dict or sequence. The parameter \<open>on_miss\<close> is
  accepted and ignored by the source, the lock is a no-op in one thread.
\<close>

definition LRU_empty :: "int \<Rightarrow> ('k, 'v) LRU" where
  "LRU_empty n =
     \<lparr>entries = [], heap = [\<lparr>PREV = 0, NEXT = 0, KEY = None, RESULT = None\<rparr>], root = 0,
      max_size = n, hit_count = 0, miss_count = 0, soft_miss_count = 0\<rparr>"

fun truthy :: "('k, 'v) update_source \<Rightarrow> bool" where
  "truthy SelfSource = False"
| "truthy (DictSource d) = (d \<noteq> [])"
| "truthy (PairsSource ps) = (ps \<noteq> [])"

definition LRU_init ::
  "int \<Rightarrow> ('k, 'v) update_source option \<Rightarrow> ('k option exn + unit) \<times> ('k, 'v) LRU" where
  "LRU_init n vals =
     (case vals of
        None \<Rightarrow> (Inr (), LRU_empty n)
      | Some E \<Rightarrow> if truthy E then LRU_update (LRU_empty n) E [] else (Inr (), LRU_empty n))"

text \<open>\<open>_get_value_map\<close>: the key of the dict with the result field of its link.\<close>

definition LRU_get_value_map :: "('k, 'v) LRU \<Rightarrow> ('k option \<times> 'v option) list" where
  "LRU_get_value_map self =
     dict_of_pairs (map (\<lambda>(k, a). (k, RESULT (heap self ! a))) (entries self))"

text \<open>
  \<open>self == other\<close>, where \<open>other\<close> is a plain dict or another LRU. With a plain dict the
  last line compares two plain dicts. With an LRU it calls \<open>other.__eq__\<close> on the value
  map of \<open>self\<close>, which is the plain-dict case from the other side. \<open>same\<close> says whether
  \<open>other\<close> is the very object \<open>self\<close>.
\<close>

definition LRU_eq_dict :: "('k, 'v) LRU \<Rightarrow> ('k option \<times> 'v option) list \<Rightarrow> bool" where
  "LRU_eq_dict self other =
     (if length other \<noteq> length (entries self) then False
      else dict_eq other (LRU_get_value_map self))"

definition LRU_eq :: "bool \<Rightarrow> ('k, 'v) LRU \<Rightarrow> ('k, 'v) LRU \<Rightarrow> bool" where
  "LRU_eq same self other =
     (if same then True
      else if length (entries other) \<noteq> length (entries self) then False
      else LRU_eq_dict other (LRU_get_value_map self))"

text \<open>\<open>get(key, default)\<close> called \<open>n\<close> times in a row, with the result of every call.\<close>

fun LRU_get_times ::
  "nat \<Rightarrow> ('k, 'v) LRU \<Rightarrow> 'k option \<Rightarrow> 'v option
     \<Rightarrow> ('k option exn + 'v option) list \<times> ('k, 'v) LRU" where
  "LRU_get_times 0 self k dflt = ([], self)"
| "LRU_get_times (Suc n) self k dflt =
     (case LRU_get self k dflt of
        (r, s) \<Rightarrow> (case LRU_get_times n s k dflt of (rs, s') \<Rightarrow> (r # rs, s')))"

section \<open>The circular list and the structural invariant\<close>

text \<open>
  The links met from address \<open>a\<close> along \<open>NEXT\<close> until the root \<open>r\<close> comes back. The
  walk gives up (\<open>None\<close>) when it leaves the heap or has not met the root after \<open>fuel\<close>
  steps; a ring in a heap of \<open>n\<close> links closes within \<open>n\<close> steps.
\<close>

fun walk :: "('k, 'v) link list \<Rightarrow> nat \<Rightarrow> nat \<Rightarrow> nat \<Rightarrow> nat list option" where
  "walk h r 0 a = None"
| "walk h r (Suc fuel) a =
     (if a = r then Some []
      else if a < length h then map_option ((#) a) (walk h r fuel (NEXT (h ! a)))
      else None)"

definition ring_nodes :: "('k, 'v) LRU \<Rightarrow> nat list option" where
  "ring_nodes self =
     walk (heap self) (root self) (length (heap self)) (NEXT (heap self ! root self))"

text \<open>
  The invariant in the specification's words: the index has as many keys as the
  circular list has links other than the root, that number is at most the capacity,
  and the root is the link of no key.
\<close>

definition structural_invariant :: "('k, 'v) LRU \<Rightarrow> bool" where
  "structural_invariant self =
     (case ring_nodes self of
        None \<Rightarrow> False
      | Some ns \<Rightarrow>
          length (entries self) = length ns
          \<and> int (length ns) \<le> max_size self
          \<and> root self \<notin> set (map snd (entries self)))"

section \<open>A cache filled from empty\<close>

text \<open>
  What holds of a cache that was filled from empty by insertions of new keys other than
  \<open>None\<close>: the root is at address 0, every key has a link of its own, the root's
  \<open>PREV\<close> is the newest link and its \<open>NEXT\<close> is the link at address 1, which holds
  the first key \<open>k1\<close>.
\<close>

definition filled :: "('k, 'v) LRU \<Rightarrow> 'k option \<Rightarrow> bool" where
  "filled s k1 =
     (root s = 0 \<and> entries s \<noteq> []
      \<and> length (heap s) = length (entries s) + 1
      \<and> PREV (heap s ! 0) = length (entries s)
      \<and> NEXT (heap s ! 0) = 1
      \<and> KEY (heap s ! 1) = k1
      \<and> hd (map fst (entries s)) = k1
      \<and> distinct (map fst (entries s))
      \<and> None \<notin> set (map fst (entries s)))"

section \<open>The well-formed ring\<close>

text \<open>
  \<open>path f a xs b\<close>: following \<open>f\<close> from \<open>a\<close> visits the addresses \<open>xs\<close> in order
  and then arrives at \<open>b\<close>.
\<close>

fun path :: "(nat \<Rightarrow> nat) \<Rightarrow> nat \<Rightarrow> nat list \<Rightarrow> nat \<Rightarrow> bool" where
  "path f a [] b = (f a = b)"
| "path f a (x # xs) b = (f a = x \<and> path f x xs b)"

text \<open>
  \<open>ring_ok s ns\<close>: the links \<open>ns\<close>, oldest first, and the root form a circular doubly
  linked list in the heap: \<open>NEXT\<close> runs from the root through \<open>ns\<close> back to the root
  and \<open>PREV\<close> runs the other way. The index holds each key once, its links are exactly
  \<open>ns\<close>, each under its own key, and there are at most \<open>max_size\<close> of them.
\<close>

definition ring_ok :: "('k, 'v) LRU \<Rightarrow> nat list \<Rightarrow> bool" where
  "ring_ok s ns =
     (root s < length (heap s)
      \<and> list_all (\<lambda>a. a < length (heap s)) ns
      \<and> distinct (root s # ns)
      \<and> path (\<lambda>a. NEXT (heap s ! a)) (root s) ns (root s)
      \<and> path (\<lambda>a. PREV (heap s ! a)) (root s) (rev ns) (root s)
      \<and> distinct (map fst (entries s))
      \<and> distinct (map snd (entries s))
      \<and> set (map snd (entries s)) = set ns
      \<and> list_all (\<lambda>(k, a). KEY (heap s ! a) = k) (entries s)
      \<and> int (length ns) \<le> max_size s)"

section \<open>Evaluation rules\<close>

lemmas bc_defs =
  BasicCache_getitem_def BasicCache_missing_def BasicCache_init_def
  dict_delitem_def dict_contains_def

lemmas lru_defs =
  LRU_setitem_def LRU_getitem_def LRU_get_def LRU_delitem_def LRU_empty_def LRU_init_def
  dict_delitem_def dict_contains_def

lemma upper_char_abc:
  "upper_char CHR ''a'' = CHR ''A''"
  "upper_char CHR ''b'' = CHR ''B''"
  "upper_char CHR ''c'' = CHR ''C''"
  by code_simp+

lemma upper_abc: "upper ''a'' = Inr ''A''" "upper ''b'' = Inr ''B''" "upper ''c'' = Inr ''C''"
  by (simp_all add: upper_def upper_char_abc)

section \<open>BasicCache: population, eviction and failure\<close>

text \<open>
  C8: when \<open>on_miss\<close> raises during the lookup of an absent key, the lookup returns that
  very exception and the cache is exactly what it was: no entry for the key, and the
  insertion queue unchanged.
\<close>

theorem BasicCache_on_miss_raises:
  assumes "map_of (store self) k = None" and "on_miss self k = Inl e"
  shows "BasicCache_getitem self k = (Inl e, self)
         \<and> map_of (store (snd (BasicCache_getitem self k))) k = None
         \<and> queue (snd (BasicCache_getitem self k)) = queue self"
  using assms by (simp add: BasicCache_getitem_def BasicCache_missing_def)

theorem BasicCache_on_miss_raises_witness:
  "map_of (store \<lparr>store = [(''a'', ''A'')], size_bc = 2,
                  on_miss = (\<lambda>k. if k = ''b'' then Inl (Raised ''boom'') else upper k),
                  queue = [''a'']\<rparr>) ''b'' = None
   \<and> BasicCache_getitem
        \<lparr>store = [(''a'', ''A'')], size_bc = 2,
         on_miss = (\<lambda>k. if k = ''b'' then Inl (Raised ''boom'') else upper k),
         queue = [''a'']\<rparr> ''b''
      = (Inl (Raised ''boom''),
         \<lparr>store = [(''a'', ''A'')], size_bc = 2,
          on_miss = (\<lambda>k. if k = ''b'' then Inl (Raised ''boom'') else upper k),
          queue = [''a'']\<rparr>)"
  using BasicCache_on_miss_raises
    [of "\<lparr>store = [(''a'', ''A'')], size_bc = 2,
          on_miss = (\<lambda>k. if k = ''b'' then Inl (Raised ''boom'') else upper k),
          queue = [''a'']\<rparr>" "''b''" "Raised ''boom''"]
  by simp

lemma BasicCache_size_zero_step:
  assumes "f k = Inr v"
  shows "BasicCache_getitem (BasicCache_init 0 f) k = (Inr v, BasicCache_init 0 f)"
  using assms by (simp add: bc_defs)

text \<open>
  C9: in a BasicCache built with size 0 every lookup misses, calls \<open>on_miss\<close> and
  returns its result, and leaves the cache as it was built, with an empty store and an
  empty queue; so no call of any run of lookups fails, as long as \<open>on_miss\<close> itself
  returns.
\<close>

theorem BasicCache_size_zero:
  assumes "\<forall>k \<in> set ks. f k = Inr (g k)"
  shows "BasicCache_getitems (BasicCache_init 0 f) ks = (Inr (map g ks), BasicCache_init 0 f)
         \<and> store (BasicCache_init 0 f) = [] \<and> queue (BasicCache_init 0 f) = []"
  using assms
proof (induction ks)
  case Nil
  then show ?case by (simp add: BasicCache_init_def)
next
  case (Cons k ks)
  then show ?case by (simp add: BasicCache_size_zero_step)
qed

theorem BasicCache_size_zero_witness:
  "BasicCache_getitems (BasicCache_init 0 upper) [''a'', ''b'', ''a'']
     = (Inr [''A'', ''B'', ''A''], BasicCache_init 0 upper)"
  using BasicCache_size_zero [of "[''a'', ''b'', ''a'']" upper "map upper_char"]
  by (simp add: upper_def upper_char_abc)

text \<open>
  C4: \<open>BasicCache(2, upper)\<close> answers the lookups of a, b, a, c with A, B, A, C. The
  third lookup is a hit that changes nothing, the queue included. The fourth evicts a,
  the key inserted first although it was read last, and leaves the keys b and c.
\<close>

theorem BasicCache_fifo:
  "(let s0 = BasicCache_init 2 upper;
        (r1, s1) = BasicCache_getitem s0 ''a'';
        (r2, s2) = BasicCache_getitem s1 ''b'';
        (r3, s3) = BasicCache_getitem s2 ''a'';
        (r4, s4) = BasicCache_getitem s3 ''c''
    in r1 = Inr ''A'' \<and> r2 = Inr ''B'' \<and> r3 = Inr ''A'' \<and> r4 = Inr ''C''
       \<and> s3 = s2 \<and> queue s3 = [''a'', ''b'']
       \<and> queue s4 = [''b'', ''c'']
       \<and> map fst (store s4) = [''b'', ''c'']
       \<and> map_of (store s4) ''a'' = None)"
  by (simp add: bc_defs upper_abc)

section \<open>LRU: recency, eviction and the ring\<close>

text \<open>
  C3: in an empty \<open>LRU(2)\<close>, after \<open>set(a, x)\<close>, \<open>set(b, y)\<close>, \<open>get(a)\<close> and
  \<open>set(c, z)\<close> on three different keys, every call has returned, the lookup gave
  \<open>x\<close>, the key b is gone and the contents are exactly a with \<open>x\<close> and c with \<open>z\<close>.
\<close>

theorem LRU_recency:
  assumes "a \<noteq> b" and "a \<noteq> c" and "b \<noteq> c"
  shows "(let (r0, s0) = LRU_init 2 None;
              (r1, s1) = LRU_setitem s0 a x;
              (r2, s2) = LRU_setitem s1 b y;
              (r3, s3) = LRU_getitem s2 a;
              (r4, s4) = LRU_setitem s3 c z
          in r0 = Inr () \<and> r1 = Inr () \<and> r2 = Inr () \<and> r3 = Inr x \<and> r4 = Inr ()
             \<and> map fst (entries s2) = [a, b]
             \<and> map fst (entries s4) = [a, c]
             \<and> \<not> dict_contains (entries s4) b
             \<and> LRU_get_value_map s4 = [(a, x), (c, z)])"
  using assms by (simp add: lru_defs LRU_get_value_map_def dict_of_pairs_def)

theorem LRU_recency_witness:
  "(let (r0, s0) = LRU_init 2 None;
        (r1, s1) = LRU_setitem s0 (Some ''a'') (Some (1::int));
        (r2, s2) = LRU_setitem s1 (Some ''b'') (Some 2);
        (r3, s3) = LRU_getitem s2 (Some ''a'');
        (r4, s4) = LRU_setitem s3 (Some ''c'') (Some 3)
    in r3 = Inr (Some 1) \<and> r4 = Inr ()
       \<and> LRU_get_value_map s4 = [(Some ''a'', Some 1), (Some ''c'', Some 3)])"
  using LRU_recency [of "Some ''a''" "Some ''b''" "Some ''c''" "Some (1::int)" "Some 2" "Some 3"]
  by (simp add: Let_def split_beta)

text \<open>
  C1 (the code fails here): in an \<open>LRU(1)\<close> the first two insertions return, and the
  third raises \<open>KeyError(None)\<close>: the second eviction finds the emptied link of the
  first one behind the root, which never moved. The second key is any key but \<open>None\<close>.
\<close>

theorem LRU_second_eviction_raises:
  "(let s0 = LRU_empty 1;
        (r1, s1) = LRU_setitem s0 a x;
        (r2, s2) = LRU_setitem s1 (Some b) y;
        (r3, s3) = LRU_setitem s2 c z
    in r1 = Inr () \<and> r2 = Inr () \<and> r3 = Inl (KeyError None))"
  by (simp add: lru_defs)

text \<open>
  C2 (the code fails here): the structural invariant holds in an empty cache and after
  a first insertion. A second insertion of the same key leaves one key in the index and
  two links in the ring. An eviction leaves the root link in the index as the link of
  the new key.
\<close>

theorem LRU_invariant_broken:
  "structural_invariant (LRU_empty 2 :: ('k, 'v) LRU)
   \<and> (let (r1, s1) = LRU_setitem (LRU_empty 2 :: ('k, 'v) LRU) a x;
          (r2, s2) = LRU_setitem s1 a y
      in r1 = Inr () \<and> r2 = Inr () \<and> structural_invariant s1
         \<and> length (entries s2) = 1 \<and> ring_nodes s2 = Some [1, 2]
         \<and> \<not> structural_invariant s2)
   \<and> (let (r1, s1) = LRU_setitem (LRU_empty 1 :: ('k, 'v) LRU) a x;
          (r2, s2) = LRU_setitem s1 b y
      in r1 = Inr () \<and> r2 = Inr () \<and> structural_invariant s1
         \<and> map_of (entries s2) b = Some (root s2)
         \<and> \<not> structural_invariant s2)"
  by (simp add: lru_defs structural_invariant_def ring_nodes_def numeral_2_eq_2)

section \<open>LRU: lookups with a default, and deletion\<close>

lemma LRU_get_absent_once:
  assumes "map_of (entries self) k = None"
  shows "LRU_get self k d =
           (Inr d, self\<lparr>miss_count := miss_count self + 1,
                         soft_miss_count := soft_miss_count self + 1\<rparr>)"
  using assms by (simp add: LRU_get_def LRU_getitem_def)

lemma LRU_get_times_absent:
  assumes "map_of (entries self) k = None"
  shows "LRU_get_times n self k d =
           (replicate n (Inr d),
            self\<lparr>miss_count := miss_count self + int n,
                 soft_miss_count := soft_miss_count self + int n\<rparr>)"
  using assms
proof (induction n arbitrary: self)
  case 0
  then show ?case by simp
next
  case (Suc n)
  let ?s = "self\<lparr>miss_count := miss_count self + 1,
                  soft_miss_count := soft_miss_count self + 1\<rparr>"
  have "map_of (entries ?s) k = None" using Suc.prems by simp
  from Suc.IH[OF this]
  show ?case by (simp add: LRU_get_absent_once[OF Suc.prems] ac_simps)
qed

text \<open>
  C5, as the claim states it, fails: a lookup with a default of an absent key counts a
  hard miss too, because \<open>get\<close> goes through \<open>self[key]\<close>, which adds one to
  \<open>miss_count\<close> before it raises.
\<close>

theorem LRU_get_absent_counts_miss:
  "map_of (entries (LRU_empty 2 :: (string, int) LRU)) (Some ''a'') = None
   \<and> fst (LRU_get (LRU_empty 2 :: (string, int) LRU) (Some ''a'') (Some 0)) = Inr (Some 0)
   \<and> miss_count (snd (LRU_get (LRU_empty 2 :: (string, int) LRU) (Some ''a'') (Some 0)))
       \<noteq> miss_count (LRU_empty 2 :: (string, int) LRU)"
  by (simp add: lru_defs)

text \<open>
  C5, amended: for a key absent from the cache, \<open>get(key, default)\<close> returns the
  default without failing and changes two counters and nothing else: \<open>soft_miss_count\<close>
  and \<open>miss_count\<close> each grow by one. The index, the links, the capacity and
  \<open>hit_count\<close> stay; \<open>n\<close> calls in a row all return the default and add \<open>n\<close> to both
  counters.
\<close>

theorem LRU_get_absent:
  assumes "map_of (entries self) k = None"
  shows "LRU_get self k d =
           (Inr d, self\<lparr>miss_count := miss_count self + 1,
                         soft_miss_count := soft_miss_count self + 1\<rparr>)
         \<and> LRU_get_times n self k d =
             (replicate n (Inr d),
              self\<lparr>miss_count := miss_count self + int n,
                   soft_miss_count := soft_miss_count self + int n\<rparr>)
         \<and> entries (snd (LRU_get_times n self k d)) = entries self
         \<and> heap (snd (LRU_get_times n self k d)) = heap self
         \<and> hit_count (snd (LRU_get_times n self k d)) = hit_count self"
  by (simp add: LRU_get_absent_once[OF assms] LRU_get_times_absent[OF assms])

theorem LRU_get_absent_witness:
  "map_of (entries (snd (LRU_setitem (LRU_empty 2 :: (string, int) LRU) (Some ''a'') (Some 1))))
       (Some ''b'') = None
   \<and> fst (LRU_get_times 3
            (snd (LRU_setitem (LRU_empty 2 :: (string, int) LRU) (Some ''a'') (Some 1)))
            (Some ''b'') (Some 0))
       = [Inr (Some 0), Inr (Some 0), Inr (Some 0)]
   \<and> soft_miss_count (snd (LRU_get_times 3
            (snd (LRU_setitem (LRU_empty 2 :: (string, int) LRU) (Some ''a'') (Some 1)))
            (Some ''b'') (Some 0))) = 3
   \<and> miss_count (snd (LRU_get_times 3
            (snd (LRU_setitem (LRU_empty 2 :: (string, int) LRU) (Some ''a'') (Some 1)))
            (Some ''b'') (Some 0))) = 3"
  using LRU_get_absent
    [of "snd (LRU_setitem (LRU_empty 2 :: (string, int) LRU) (Some ''a'') (Some 1))"
        "Some ''b''" "Some 0" 3]
  by (simp add: lru_defs numeral_3_eq_3)

lemma length_delete_present:
  "distinct (map fst al) \<Longrightarrow> map_of al k \<noteq> None \<Longrightarrow> length (AList.delete k al) + 1 = length al"
proof (induction al)
  case Nil
  then show ?case by simp
next
  case (Cons p al)
  obtain k' v where p: "p = (k', v)" by (cases p)
  show ?case
  proof (cases "k' = k")
    case True
    with Cons.prems p have "k \<notin> fst ` set al" by auto
    then have "AList.delete k al = al" by (rule AList.delete_id)
    with True p show ?thesis by simp
  next
    case False
    with Cons p show ?thesis by simp
  qed
qed

text \<open>
  C6, as the claim states it, fails: \<open>del self[key]\<close> is the inherited dict method, so
  after a deletion the key is out of the index while its link, still holding the key, is
  the one link of the ring behind the root.
\<close>

theorem LRU_delete_keeps_link:
  "fst (LRU_delitem (snd (LRU_setitem (LRU_empty 2 :: (string, int) LRU) (Some ''a'') (Some 1)))
          (Some ''a'')) = Inr ()
   \<and> entries (snd (LRU_delitem
          (snd (LRU_setitem (LRU_empty 2 :: (string, int) LRU) (Some ''a'') (Some 1)))
          (Some ''a''))) = []
   \<and> ring_nodes (snd (LRU_delitem
          (snd (LRU_setitem (LRU_empty 2 :: (string, int) LRU) (Some ''a'') (Some 1)))
          (Some ''a''))) = Some [1]
   \<and> KEY (heap (snd (LRU_delitem
          (snd (LRU_setitem (LRU_empty 2 :: (string, int) LRU) (Some ''a'') (Some 1)))
          (Some ''a''))) ! 1) = Some ''a''"
  by (simp add: lru_defs ring_nodes_def numeral_2_eq_2)

text \<open>
  C6, amended: \<open>delete(key)\<close> on a present key removes the key from the index, which
  gets one key shorter, and changes nothing else: the links and the root are what they
  were, so the ring still holds the key's link. On an absent key it fails with KeyError
  and leaves the cache unchanged.
\<close>

theorem LRU_delitem_index_only:
  assumes "distinct (map fst (entries self))"
  shows "(dict_contains (entries self) k \<longrightarrow>
            LRU_delitem self k = (Inr (), self\<lparr>entries := AList.delete k (entries self)\<rparr>)
            \<and> \<not> dict_contains (entries (snd (LRU_delitem self k))) k
            \<and> length (entries (snd (LRU_delitem self k))) + 1 = length (entries self)
            \<and> heap (snd (LRU_delitem self k)) = heap self
            \<and> ring_nodes (snd (LRU_delitem self k)) = ring_nodes self)
         \<and> (\<not> dict_contains (entries self) k \<longrightarrow>
              LRU_delitem self k = (Inl (KeyError k), self))"
proof (cases "dict_contains (entries self) k")
  case True
  then have present: "map_of (entries self) k \<noteq> None" by (simp add: dict_contains_def)
  have "length (AList.delete k (entries self)) + 1 = length (entries self)"
    by (rule length_delete_present[OF assms present])
  with True show ?thesis
    by (simp add: LRU_delitem_def dict_delitem_def dict_contains_def ring_nodes_def
        AList.delete_conv')
next
  case False
  then show ?thesis by (simp add: LRU_delitem_def dict_delitem_def)
qed

theorem LRU_delitem_index_only_witness:
  "distinct (map fst (entries
       (snd (LRU_setitem (LRU_empty 2 :: (string, int) LRU) (Some ''a'') (Some 1)))))
   \<and> dict_contains (entries
       (snd (LRU_setitem (LRU_empty 2 :: (string, int) LRU) (Some ''a'') (Some 1)))) (Some ''a'')
   \<and> \<not> dict_contains (entries
       (snd (LRU_setitem (LRU_empty 2 :: (string, int) LRU) (Some ''a'') (Some 1)))) (Some ''b'')
   \<and> fst (LRU_delitem
       (snd (LRU_setitem (LRU_empty 2 :: (string, int) LRU) (Some ''a'') (Some 1)))
       (Some ''a'')) = Inr ()
   \<and> ring_nodes (snd (LRU_delitem
       (snd (LRU_setitem (LRU_empty 2 :: (string, int) LRU) (Some ''a'') (Some 1)))
       (Some ''a''))) = Some [1]
   \<and> fst (LRU_delitem
       (snd (LRU_setitem (LRU_empty 2 :: (string, int) LRU) (Some ''a'') (Some 1)))
       (Some ''b'')) = Inl (KeyError (Some ''b''))"
  using LRU_delitem_index_only
    [of "snd (LRU_setitem (LRU_empty 2 :: (string, int) LRU) (Some ''a'') (Some 1))" "Some ''a''"]
    LRU_delitem_index_only
    [of "snd (LRU_setitem (LRU_empty 2 :: (string, int) LRU) (Some ''a'') (Some 1))" "Some ''b''"]
  by (simp add: lru_defs ring_nodes_def numeral_2_eq_2)

section \<open>LRU: equality\<close>

lemma update_fresh_key: "k \<notin> fst ` set al \<Longrightarrow> AList.update k v al = al @ [(k, v)]"
  by (induction al) auto

lemma fold_update_distinct:
  "distinct (map fst (acc @ ps)) \<Longrightarrow> fold (\<lambda>(k, v) d. AList.update k v d) ps acc = acc @ ps"
proof (induction ps arbitrary: acc)
  case Nil
  then show ?case by simp
next
  case (Cons p ps)
  obtain k v where p: "p = (k, v)" by (cases p)
  from Cons.prems p have fresh: "k \<notin> fst ` set acc" by auto
  from Cons.prems p have "distinct (map fst ((acc @ [(k, v)]) @ ps))" by simp
  from Cons.IH[OF this] show ?case by (simp add: p update_fresh_key[OF fresh])
qed

lemma dict_of_pairs_distinct: "distinct (map fst ps) \<Longrightarrow> dict_of_pairs ps = ps"
  using fold_update_distinct[of "[]" ps] by (simp add: dict_of_pairs_def)

lemma map_fst_map_second: "map fst (map (\<lambda>(k, a). (k, g a)) xs) = map fst xs"
  by (induction xs) auto

lemma value_map_entries:
  assumes "distinct (map fst (entries self))"
  shows "LRU_get_value_map self = map (\<lambda>(k, a). (k, RESULT (heap self ! a))) (entries self)"
proof -
  have "distinct (map fst (map (\<lambda>(k, a). (k, RESULT (heap self ! a))) (entries self)))"
    by (simp only: map_fst_map_second assms)
  then show ?thesis
    unfolding LRU_get_value_map_def by (rule dict_of_pairs_distinct)
qed

lemma value_map_keys:
  assumes "distinct (map fst (entries self))"
  shows "map fst (LRU_get_value_map self) = map fst (entries self)"
  by (simp only: value_map_entries[OF assms] map_fst_map_second)

lemma value_map_length:
  assumes "distinct (map fst (entries self))"
  shows "length (LRU_get_value_map self) = length (entries self)"
  by (simp add: value_map_entries[OF assms])

lemma distinct_keys_distinct_pairs: "distinct (map fst a) \<Longrightarrow> distinct a"
  by (rule distinct_map[THEN iffD1, THEN conjunct1])

lemma same_pairs_same_length:
  assumes "distinct (map fst a)" and "distinct (map fst b)" and "set a = set b"
  shows "length a = length b"
  using assms(3) distinct_card[OF distinct_keys_distinct_pairs[OF assms(1)]]
    distinct_card[OF distinct_keys_distinct_pairs[OF assms(2)]]
  by simp

lemma dict_eq_iff:
  assumes da: "distinct (map fst a)" and db: "distinct (map fst b)"
  shows "dict_eq a b \<longleftrightarrow> set a = set b"
proof
  assume eq: "dict_eq a b"
  then have len: "length a = length b"
    and every: "\<forall>(k, v) \<in> set a. map_of b k = Some v"
    by (auto simp: dict_eq_def list_all_iff)
  have sub: "set a \<subseteq> set b"
    using every by (auto dest: map_of_SomeD)
  have "card (set a) = card (set b)"
    using len distinct_card[OF distinct_keys_distinct_pairs[OF da]]
      distinct_card[OF distinct_keys_distinct_pairs[OF db]] by simp
  with sub show "set a = set b"
    by (simp add: card_subset_eq)
next
  assume eq: "set a = set b"
  have "length a = length b"
    by (rule same_pairs_same_length[OF da db eq])
  moreover have "list_all (\<lambda>(k, v). map_of b k = Some v) a"
    using eq db by (auto simp: list_all_iff)
  ultimately show "dict_eq a b" by (simp add: dict_eq_def)
qed

lemma LRU_eq_dict_sets:
  assumes ds: "distinct (map fst (entries self))" and dd: "distinct (map fst d)"
  shows "LRU_eq_dict self d \<longleftrightarrow> set d = set (LRU_get_value_map self)"
proof -
  have dv: "distinct (map fst (LRU_get_value_map self))"
    using ds by (simp add: value_map_keys)
  have len: "set d = set (LRU_get_value_map self) \<Longrightarrow> length d = length (entries self)"
    using same_pairs_same_length[OF dd dv] value_map_length[OF ds] by simp
  show ?thesis
    using len by (auto simp: LRU_eq_dict_def dict_eq_iff[OF dd dv])
qed

text \<open>
  C7: two LRU caches compare equal exactly when their value maps hold the same
  key-to-value pairs. Capacity, the order of the links and the three counters take no
  part in it. Each index holds a key once, as a dict does; \<open>same\<close> is true only of a
  cache compared with itself.
\<close>

theorem LRU_eq_same_pairs:
  assumes "distinct (map fst (entries a))" and "distinct (map fst (entries b))"
    and "same \<Longrightarrow> b = a"
  shows "LRU_eq same a b \<longleftrightarrow> set (LRU_get_value_map a) = set (LRU_get_value_map b)"
proof (cases same)
  case True
  with assms(3) show ?thesis by (simp add: LRU_eq_def)
next
  case False
  have dva: "distinct (map fst (LRU_get_value_map a))"
    using assms(1) by (simp add: value_map_keys)
  have dvb: "distinct (map fst (LRU_get_value_map b))"
    using assms(2) by (simp add: value_map_keys)
  have len: "set (LRU_get_value_map a) = set (LRU_get_value_map b)
      \<Longrightarrow> length (entries b) = length (entries a)"
    using same_pairs_same_length[OF dva dvb]
      value_map_length[OF assms(1)] value_map_length[OF assms(2)] by simp
  show ?thesis
    using False len by (auto simp: LRU_eq_def LRU_eq_dict_sets[OF assms(2) dva])
qed

theorem LRU_eq_same_pairs_witness:
  "fst (LRU_init 3 (Some (DictSource [(Some ''a'', Some (1::int))]))) = Inr ()
   \<and> fst (LRU_init 10 (Some (DictSource [(Some ''a'', Some (1::int))]))) = Inr ()
   \<and> max_size (snd (LRU_init 3 (Some (DictSource [(Some ''a'', Some (1::int))])))) = 3
   \<and> max_size (snd (LRU_init 10 (Some (DictSource [(Some ''a'', Some (1::int))])))) = 10
   \<and> LRU_eq False (snd (LRU_init 3 (Some (DictSource [(Some ''a'', Some (1::int))]))))
        (snd (LRU_init 10 (Some (DictSource [(Some ''a'', Some (1::int))]))))
   \<and> LRU_eq False (snd (LRU_init 3 (Some (DictSource [(Some ''a'', Some (1::int))]))))
        (snd (LRU_getitem
           (snd (LRU_init 10 (Some (DictSource [(Some ''a'', Some (1::int))])))) (Some ''a'')))
   \<and> \<not> LRU_eq False (snd (LRU_init 3 (Some (DictSource [(Some ''a'', Some (1::int))]))))
        (snd (LRU_init 3 (Some (DictSource [(Some ''a'', Some (2::int))]))))"
  using LRU_eq_same_pairs
    [of "snd (LRU_init 3 (Some (DictSource [(Some ''a'', Some (1::int))])))"
        "snd (LRU_init 10 (Some (DictSource [(Some ''a'', Some (1::int))])))" False]
    LRU_eq_same_pairs
    [of "snd (LRU_init 3 (Some (DictSource [(Some ''a'', Some (1::int))])))"
        "snd (LRU_getitem
           (snd (LRU_init 10 (Some (DictSource [(Some ''a'', Some (1::int))])))) (Some ''a''))"
        False]
    LRU_eq_same_pairs
    [of "snd (LRU_init 3 (Some (DictSource [(Some ''a'', Some (1::int))])))"
        "snd (LRU_init 3 (Some (DictSource [(Some ''a'', Some (2::int))])))" False]
  by (simp add: lru_defs LRU_update_def LRU_get_value_map_def dict_of_pairs_def)

text \<open>
  C10: an LRU cache compares equal to a plain dict exactly when the dict has the length
  of the cache's value map and the same key-to-value pairs; when the lengths differ the
  comparison is false.
\<close>

theorem LRU_eq_plain_dict:
  assumes "distinct (map fst (entries self))" and "distinct (map fst d)"
  shows "(LRU_eq_dict self d \<longleftrightarrow>
            length d = length (LRU_get_value_map self) \<and> set d = set (LRU_get_value_map self))
         \<and> (length d \<noteq> length (LRU_get_value_map self) \<longrightarrow> \<not> LRU_eq_dict self d)"
proof -
  have sets: "LRU_eq_dict self d \<longleftrightarrow> set d = set (LRU_get_value_map self)"
    by (rule LRU_eq_dict_sets[OF assms])
  have len: "length (LRU_get_value_map self) = length (entries self)"
    by (rule value_map_length[OF assms(1)])
  have differ: "length d \<noteq> length (entries self) \<Longrightarrow> \<not> LRU_eq_dict self d"
    by (simp add: LRU_eq_dict_def)
  from sets len differ show ?thesis by metis
qed

theorem LRU_eq_plain_dict_witness:
  "LRU_eq_dict (snd (LRU_setitem (LRU_empty 2 :: (string, int) LRU) (Some ''a'') (Some 1)))
      [(Some ''a'', Some 1)]
   \<and> \<not> LRU_eq_dict (snd (LRU_setitem (LRU_empty 2 :: (string, int) LRU) (Some ''a'') (Some 1)))
      [(Some ''a'', Some 2)]
   \<and> \<not> LRU_eq_dict (snd (LRU_setitem (LRU_empty 2 :: (string, int) LRU) (Some ''a'') (Some 1)))
      [(Some ''a'', Some 1), (Some ''b'', Some 2)]"
  using LRU_eq_plain_dict
    [of "snd (LRU_setitem (LRU_empty 2 :: (string, int) LRU) (Some ''a'') (Some 1))"
        "[(Some ''a'', Some 1)]"]
    LRU_eq_plain_dict
    [of "snd (LRU_setitem (LRU_empty 2 :: (string, int) LRU) (Some ''a'') (Some 1))"
        "[(Some ''a'', Some 2)]"]
    LRU_eq_plain_dict
    [of "snd (LRU_setitem (LRU_empty 2 :: (string, int) LRU) (Some ''a'') (Some 1))"
        "[(Some ''a'', Some 1), (Some ''b'', Some 2)]"]
  by (simp add: lru_defs LRU_get_value_map_def dict_of_pairs_def)

section \<open>LRU: filling a cache of any capacity\<close>

lemma first_insert:
  assumes "0 < C" "k \<noteq> None"
  shows "LRU_setitem (LRU_empty C) k v = (Inr (), snd (LRU_setitem (LRU_empty C) k v))"
    and "filled (snd (LRU_setitem (LRU_empty C) k v)) k"
    and "map fst (entries (snd (LRU_setitem (LRU_empty C) k v))) = [k]"
    and "max_size (snd (LRU_setitem (LRU_empty C) k v)) = C"
  using assms by (auto simp: LRU_setitem_def LRU_empty_def filled_def)

lemma append_insert:
  assumes f: "filled s k1" and room: "int (length (entries s)) < max_size s"
    and fresh: "k \<notin> set (map fst (entries s))" and some: "k \<noteq> None"
  shows "LRU_setitem s k v = (Inr (), snd (LRU_setitem s k v))"
    and "filled (snd (LRU_setitem s k v)) k1"
    and "map fst (entries (snd (LRU_setitem s k v))) = map fst (entries s) @ [k]"
    and "max_size (snd (LRU_setitem s k v)) = max_size s"
proof -
  from fresh have upd: "AList.update k (length (heap s)) (entries s) = entries s @ [(k, length (heap s))]"
    by (intro update_fresh_key) simp
  from f have ne: "entries s \<noteq> []" and len: "length (heap s) = length (entries s) + 1"
    and pv: "PREV (heap s ! 0) = length (entries s)" and r: "root s = 0"
    by (simp_all add: filled_def)
  from ne have pos: "0 < length (entries s)" by simp
  show "LRU_setitem s k v = (Inr (), snd (LRU_setitem s k v))"
    using room by (simp add: LRU_setitem_def Let_def)
  show "map fst (entries (snd (LRU_setitem s k v))) = map fst (entries s) @ [k]"
    using room upd by (simp add: LRU_setitem_def Let_def)
  show "max_size (snd (LRU_setitem s k v)) = max_size s"
    using room by (simp add: LRU_setitem_def Let_def)
  show "filled (snd (LRU_setitem s k v)) k1"
    using f room upd fresh some pos
    by (auto simp: LRU_setitem_def Let_def filled_def nth_append nth_list_update hd_append)
qed

lemma first_eviction:
  assumes f: "filled s k1" and full: "\<not> int (length (entries s)) < max_size s"
    and fresh: "k \<notin> set (map fst (entries s))" and some: "k \<noteq> None"
  shows "LRU_setitem s k v = (Inr (), snd (LRU_setitem s k v))"
    and "map fst (entries (snd (LRU_setitem s k v))) = tl (map fst (entries s)) @ [k]"
    and "root (snd (LRU_setitem s k v)) = 0"
    and "NEXT (heap (snd (LRU_setitem s k v)) ! 0) = 1"
    and "KEY (heap (snd (LRU_setitem s k v)) ! 1) = None"
    and "max_size (snd (LRU_setitem s k v)) = max_size s"
    and "length (heap (snd (LRU_setitem s k v))) = length (heap s)"
proof -
  from f obtain v1 rest where es: "entries s = (k1, v1) # rest"
    by (cases "entries s") (auto simp: filled_def)
  from f es have k1rest: "k1 \<notin> fst ` set rest" by (auto simp: filled_def)
  from fresh es have krest: "k \<notin> fst ` set rest" and kk1: "k \<noteq> k1" by auto
  have del: "AList.delete k1 (entries s) = rest"
    using es k1rest by simp
  have upd: "AList.update k 0 rest = rest @ [(k, 0)]"
    by (rule update_fresh_key[OF krest])
  from f have len: "length (heap s) = length (entries s) + 1" and r: "root s = 0"
    and nx: "NEXT (heap s ! 0) = 1" and key1: "KEY (heap s ! 1) = k1"
    by (simp_all add: filled_def)
  from es len have two: "1 < length (heap s)" and one: "0 < length (heap s)" by simp_all
  have present: "dict_contains (entries s) k1"
    using es by (simp add: dict_contains_def)
  have run: "LRU_setitem s k v =
      (Inr (), s\<lparr>heap := (heap s)[0 := (heap s ! 0)\<lparr>KEY := k, RESULT := v\<rparr>,
                              1 := (heap s ! 1)\<lparr>KEY := None, RESULT := None\<rparr>],
                   entries := rest @ [(k, 0)]\<rparr>)"
    using full r nx key1 two one present del upd
    by (simp add: LRU_setitem_def Let_def dict_delitem_def)
  show "LRU_setitem s k v = (Inr (), snd (LRU_setitem s k v))" by (simp add: run)
  show "map fst (entries (snd (LRU_setitem s k v))) = tl (map fst (entries s)) @ [k]"
    by (simp add: run es)
  show "root (snd (LRU_setitem s k v)) = 0" by (simp add: run r)
  show "NEXT (heap (snd (LRU_setitem s k v)) ! 0) = 1" using two one nx by (simp add: run)
  show "KEY (heap (snd (LRU_setitem s k v)) ! 1) = None" using two by (simp add: run)
  show "max_size (snd (LRU_setitem s k v)) = max_size s" by (simp add: run)
  show "length (heap (snd (LRU_setitem s k v))) = length (heap s)" by (simp add: run)
qed

lemma second_eviction:
  assumes "root s = 0" and "NEXT (heap s ! 0) = 1" and "KEY (heap s ! 1) = None"
    and "1 < length (heap s)"
    and "\<not> int (length (entries s)) < max_size s"
    and "None \<notin> set (map fst (entries s))"
  shows "fst (LRU_setitem s k v) = Inl (KeyError None)"
proof -
  from assms(6) have "map_of (entries s) None = None"
    by (simp add: map_of_eq_None_iff)
  moreover from assms(4) have "0 < length (heap s)" by (cases "heap s") simp_all
  ultimately show ?thesis using assms(1-5)
    by (simp add: LRU_setitem_def Let_def dict_delitem_def dict_contains_def)
qed

lemma fill_run:
  assumes "filled s k1"
    and "int (length (entries s)) + int (length kvs) \<le> max_size s"
    and "distinct (map fst (entries s) @ map fst kvs)"
    and "None \<notin> set (map fst kvs)"
  shows "\<exists>s'. filled s' k1 \<and> max_size s' = max_size s
           \<and> map fst (entries s') = map fst (entries s) @ map fst kvs
           \<and> (\<forall>more. update_pairs s [] (kvs @ more) = update_pairs s' [] more)"
  using assms
proof (induction kvs arbitrary: s)
  case Nil
  then show ?case by auto
next
  case (Cons p kvs)
  obtain k v where p: "p = (k, v)" by (cases p)
  define s1 where "s1 = snd (LRU_setitem s k v)"
  from Cons.prems p have room: "int (length (entries s)) < max_size s"
    and fresh: "k \<notin> set (map fst (entries s))" and some: "k \<noteq> None"
    by auto
  note step = append_insert[OF Cons.prems(1) room fresh some, of v, folded s1_def]
  have absent: "\<not> dict_contains (entries s) k"
    using fresh by (simp add: dict_contains_def map_of_eq_None_iff)
  have len: "length (entries s1) = length (entries s) + 1"
    using arg_cong[OF step(3), of length] by simp
  have "\<exists>s'. filled s' k1 \<and> max_size s' = max_size s1
           \<and> map fst (entries s') = map fst (entries s1) @ map fst kvs
           \<and> (\<forall>more. update_pairs s1 [] (kvs @ more) = update_pairs s' [] more)"
  proof (rule Cons.IH[OF step(2)])
    show "int (length (entries s1)) + int (length kvs) \<le> max_size s1"
      using Cons.prems(2) len step(4) by simp
    show "distinct (map fst (entries s1) @ map fst kvs)"
      using Cons.prems(3) p step(3) by simp
    show "None \<notin> set (map fst kvs)"
      using Cons.prems(4) by simp
  qed
  then obtain s' where s': "filled s' k1" "max_size s' = max_size s1"
    "map fst (entries s') = map fst (entries s1) @ map fst kvs"
    "\<forall>more. update_pairs s1 [] (kvs @ more) = update_pairs s' [] more"
    by blast
  have "\<forall>more. update_pairs s [] ((p # kvs) @ more) = update_pairs s' [] more"
  proof
    fix more
    have "update_pairs s [] ((p # kvs) @ more) = update_pairs s1 [] (kvs @ more)"
      using absent by (simp add: p step(1))
    with s'(4) show "update_pairs s [] ((p # kvs) @ more) = update_pairs s' [] more"
      by simp
  qed
  with s'(1-3) step(3,4) p show ?case by auto
qed

lemma tl_member: "x \<in> set (tl xs) \<Longrightarrow> x \<in> set xs"
  by (cases xs) simp_all

lemma LRU_init_pairs:
  "ps \<noteq> [] \<Longrightarrow> LRU_init C (Some (PairsSource ps)) =
     (case update_pairs (LRU_empty C) [] ps of
        (Inl e, s) \<Rightarrow> (Inl e, s)
      | (Inr u, s) \<Rightarrow> (Inr (), s))"
  by (simp add: LRU_init_def LRU_update_def split: prod.splits sum.splits)

lemma fill_to_capacity:
  assumes pos: "0 < C" and len: "int (length kvs) = C"
    and dist: "distinct (map fst kvs)" and some: "None \<notin> set (map fst kvs)"
  shows "\<exists>s'. filled s' (hd (map fst kvs)) \<and> max_size s' = C
           \<and> map fst (entries s') = map fst kvs
           \<and> (\<forall>more. update_pairs (LRU_empty C) [] (kvs @ more) = update_pairs s' [] more)"
proof -
  from pos len obtain k v rest where kvs: "kvs = (k, v) # rest"
    by (cases kvs) auto
  define s1 :: "('a, 'b) LRU" where "s1 = snd (LRU_setitem (LRU_empty C) k v)"
  from some kvs have k: "k \<noteq> None" by auto
  note first = first_insert[OF pos k, of v, folded s1_def]
  have "\<exists>s'. filled s' k \<and> max_size s' = max_size s1
           \<and> map fst (entries s') = map fst (entries s1) @ map fst rest
           \<and> (\<forall>more. update_pairs s1 [] (rest @ more) = update_pairs s' [] more)"
  proof (rule fill_run[OF first(2)])
    show "int (length (entries s1)) + int (length rest) \<le> max_size s1"
      using arg_cong[OF first(3), of length] first(4) len kvs by simp
    show "distinct (map fst (entries s1) @ map fst rest)"
      using dist kvs first(3) by simp
    show "None \<notin> set (map fst rest)"
      using some kvs by simp
  qed
  then obtain s' where s': "filled s' k" "max_size s' = max_size s1"
    "map fst (entries s') = map fst (entries s1) @ map fst rest"
    "\<forall>more. update_pairs s1 [] (rest @ more) = update_pairs s' [] more"
    by blast
  have "\<forall>more. update_pairs (LRU_empty C) [] (kvs @ more) = update_pairs s' [] more"
  proof
    fix more
    have "\<not> dict_contains (entries (LRU_empty C :: ('a, 'b) LRU)) k"
      by (simp add: dict_contains_def LRU_empty_def)
    then have "update_pairs (LRU_empty C) [] (kvs @ more) = update_pairs s1 [] (rest @ more)"
      by (simp add: kvs first(1))
    with s'(4) show "update_pairs (LRU_empty C) [] (kvs @ more) = update_pairs s' [] more"
      by simp
  qed
  with s'(1-3) first(3,4) kvs show ?thesis by auto
qed

text \<open>
  Eviction in a cache of any capacity \<open>C > 0\<close>: built from \<open>C\<close> pairs with different
  keys, none of them \<open>None\<close>, the cache holds exactly their keys; built from one pair
  more, it has dropped the first key and holds the others in insertion order.
\<close>

theorem LRU_evicts_first_inserted:
  assumes "0 < C" and "int (length kvs) = C"
    and "distinct (map fst (kvs @ [p]))" and "None \<notin> set (map fst (kvs @ [p]))"
  shows "fst (LRU_init C (Some (PairsSource kvs))) = Inr ()
         \<and> map fst (entries (snd (LRU_init C (Some (PairsSource kvs))))) = map fst kvs
         \<and> fst (LRU_init C (Some (PairsSource (kvs @ [p])))) = Inr ()
         \<and> map fst (entries (snd (LRU_init C (Some (PairsSource (kvs @ [p]))))))
             = tl (map fst kvs) @ [fst p]"
proof -
  from assms have dist: "distinct (map fst kvs)" and some: "None \<notin> set (map fst kvs)"
    by auto
  from fill_to_capacity[OF assms(1,2) dist some]
  obtain s' where s': "filled s' (hd (map fst kvs))" "max_size s' = C"
    "map fst (entries s') = map fst kvs"
    "\<forall>more. update_pairs (LRU_empty C) [] (kvs @ more) = update_pairs s' [] more"
    by blast
  from assms(1,2) have ne: "kvs \<noteq> []" by auto
  obtain k v where p: "p = (k, v)" by (cases p)
  have full: "\<not> int (length (entries s')) < max_size s'"
    using arg_cong[OF s'(3), of length] s'(2) assms(2) by simp
  have fresh: "k \<notin> set (map fst (entries s'))" and k: "k \<noteq> None"
    using assms(3,4) p s'(3) by auto
  define s2 where "s2 = snd (LRU_setitem s' k v)"
  note ev = first_eviction[OF s'(1) full fresh k, of v, folded s2_def]
  have a: "update_pairs (LRU_empty C) [] kvs = (Inr (), s')"
    using s'(4)[rule_format, of "[]"] by simp
  have absent: "\<not> dict_contains (entries s') k"
    using fresh by (simp add: dict_contains_def map_of_eq_None_iff)
  have b: "update_pairs (LRU_empty C) [] (kvs @ [p]) = (Inr (), s2)"
    using s'(4)[rule_format, of "[p]"] absent by (simp add: p ev(1))
  show ?thesis
    using ne a b s'(3) ev(2) p by (simp add: LRU_init_pairs)
qed

theorem LRU_evicts_first_inserted_witness:
  "map fst (entries (snd (LRU_init 2 (Some (PairsSource
      [(Some ''a'', Some (1::int)), (Some ''b'', Some 2), (Some ''c'', Some 3)])))))
   = [Some ''b'', Some ''c'']"
  using LRU_evicts_first_inserted
    [of 2 "[(Some ''a'', Some (1::int)), (Some ''b'', Some 2)]" "(Some ''c'', Some 3)"]
  by simp

text \<open>
  The second eviction in a cache of any capacity \<open>C > 0\<close>: building the cache from
  \<open>C + 1\<close> pairs with different keys, none of them \<open>None\<close>, succeeds, and building
  it from \<open>C + 2\<close> such pairs raises \<open>KeyError(None)\<close>.
\<close>

theorem LRU_second_eviction_any_capacity:
  assumes "0 < C" and "int (length kvs) = C"
    and "distinct (map fst (kvs @ [p, q]))" and "None \<notin> set (map fst (kvs @ [p, q]))"
  shows "fst (LRU_init C (Some (PairsSource (kvs @ [p])))) = Inr ()
         \<and> fst (LRU_init C (Some (PairsSource (kvs @ [p, q])))) = Inl (KeyError None)"
proof -
  from assms have dist: "distinct (map fst kvs)" and some: "None \<notin> set (map fst kvs)"
    by auto
  from fill_to_capacity[OF assms(1,2) dist some]
  obtain s' where s': "filled s' (hd (map fst kvs))" "max_size s' = C"
    "map fst (entries s') = map fst kvs"
    "\<forall>more. update_pairs (LRU_empty C) [] (kvs @ more) = update_pairs s' [] more"
    by blast
  obtain k v where p: "p = (k, v)" by (cases p)
  obtain k' v' where q: "q = (k', v')" by (cases q)
  have full: "\<not> int (length (entries s')) < max_size s'"
    using arg_cong[OF s'(3), of length] s'(2) assms(2) by simp
  have fresh: "k \<notin> set (map fst (entries s'))" and k: "k \<noteq> None"
    using assms(3,4) p s'(3) by auto
  define s2 where "s2 = snd (LRU_setitem s' k v)"
  note ev = first_eviction[OF s'(1) full fresh k, of v, folded s2_def]
  have absent: "\<not> dict_contains (entries s') k"
    using fresh by (simp add: dict_contains_def map_of_eq_None_iff)
  have b: "update_pairs (LRU_empty C) [] (kvs @ [p]) = (Inr (), s2)"
    using s'(4)[rule_format, of "[p]"] absent by (simp add: p ev(1))
  have keys2: "map fst (entries s2) = tl (map fst kvs) @ [k]"
    using ev(2) s'(3) by simp
  have k'fresh: "k' \<notin> set (map fst (entries s2))"
    using assms(3) p q keys2 by (auto dest!: tl_member)
  have absent2: "\<not> dict_contains (entries s2) k'"
    using k'fresh by (simp add: dict_contains_def map_of_eq_None_iff)
  have none2: "None \<notin> set (map fst (entries s2))"
    using some k keys2 by (auto dest!: tl_member)
  from assms(1,2) have ne: "kvs \<noteq> []" by auto
  have len2: "length (entries s2) = length kvs"
    using arg_cong[OF keys2, of length] ne by simp
  have full2: "\<not> int (length (entries s2)) < max_size s2"
    using len2 ev(6) s'(2) assms(2) by simp
  have heap2: "1 < length (heap s2)"
    using ev(7) s'(1) by (auto simp: filled_def)
  have fail: "fst (LRU_setitem s2 k' v') = Inl (KeyError None)"
    by (rule second_eviction[OF ev(3) ev(4) ev(5) heap2 full2 none2])
  have c: "fst (update_pairs (LRU_empty C) [] (kvs @ [p, q])) = Inl (KeyError None)"
    using s'(4)[rule_format, of "[p, q]"] absent absent2 fail
    by (simp add: p q ev(1) split: prod.splits sum.splits)
  show ?thesis
    using b c by (auto simp: LRU_init_pairs split: prod.splits sum.splits)
qed

theorem LRU_second_eviction_any_capacity_witness:
  "fst (LRU_init 2 (Some (PairsSource
      [(Some ''a'', Some (1::int)), (Some ''b'', Some 2), (Some ''c'', Some 3),
       (Some ''d'', Some 4)])))
   = Inl (KeyError None)"
  using LRU_second_eviction_any_capacity
    [of 2 "[(Some ''a'', Some (1::int)), (Some ''b'', Some 2)]" "(Some ''c'', Some 3)"
        "(Some ''d'', Some 4)"]
  by simp

section \<open>LRU: what keeps the ring well formed\<close>

lemma path_append [simp]:
  "path f a (xs @ y # ys) b = (path f a xs y \<and> path f y ys b)"
  by (induction xs arbitrary: a) auto

lemma path_snoc [simp]: "path f a (xs @ [y]) b = (path f a xs y \<and> f y = b)"
  using path_append[of f a xs y "[]" b] by simp

lemma path_first: "path f a xs b \<Longrightarrow> f a = hd (xs @ [b])"
  by (cases xs) auto

lemma path_same:
  "path f a xs b \<Longrightarrow> \<forall>c \<in> set (a # xs). g c = f c \<Longrightarrow> path g a xs b"
  by (induction xs arbitrary: a) auto

lemma path_start:
  assumes p: "path f a xs b" and a: "g a' = f a" and rest: "\<forall>c \<in> set xs. g c = f c"
  shows "path g a' xs b"
proof (cases xs)
  case Nil
  with p a show ?thesis by simp
next
  case (Cons y ys)
  from p Cons have "path f y ys b" and "f a = y" by auto
  moreover from rest Cons have "\<forall>c \<in> set (y # ys). g c = f c" by simp
  ultimately show ?thesis using a Cons path_same[of f y ys b g] by simp
qed

lemma path_end:
  "path f a xs b \<Longrightarrow> distinct (a # xs) \<Longrightarrow> \<forall>c \<in> set (butlast (a # xs)). g c = f c
     \<Longrightarrow> g (last (a # xs)) = b' \<Longrightarrow> path g a xs b'"
proof (induction xs arbitrary: a)
  case Nil
  then show ?case by simp
next
  case (Cons x xs)
  from Cons.prems have "path g x xs b'"
    by (intro Cons.IH) auto
  with Cons.prems show ?case by auto
qed

lemma walk_path:
  assumes "path (\<lambda>a. NEXT (h ! a)) x xs r" and "r \<notin> set (x # xs)"
    and "\<forall>a \<in> set (x # xs). a < length h" and "length (x # xs) < fuel"
  shows "walk h r fuel x = Some (x # xs)"
  using assms
proof (induction xs arbitrary: x fuel)
  case Nil
  then obtain n where "fuel = Suc (Suc n)" by (cases fuel; cases "fuel - 1") auto
  with Nil show ?case by auto
next
  case (Cons y ys)
  then obtain n where fuel: "fuel = Suc n" by (cases fuel) auto
  from Cons.prems fuel have "walk h r n y = Some (y # ys)"
    by (intro Cons.IH) auto
  with Cons.prems fuel show ?case by auto
qed

lemma distinct_below_length:
  assumes "distinct xs" and "\<forall>a \<in> set xs. a < (n::nat)"
  shows "length xs \<le> n"
proof -
  have "set xs \<subseteq> {..<n}" using assms(2) by auto
  then have "card (set xs) \<le> card {..<n}" by (intro card_mono) auto
  with assms(1) show ?thesis by (simp add: distinct_card)
qed

lemma ring_ok_nodes:
  assumes "ring_ok s ns"
  shows "ring_nodes s = Some ns"
proof -
  let ?h = "heap s" and ?r = "root s"
  from assms have r: "?r < length ?h" and bound: "\<forall>a \<in> set ns. a < length ?h"
    and dist: "distinct (?r # ns)"
    and nx: "path (\<lambda>a. NEXT (?h ! a)) ?r ns ?r"
    by (simp_all add: ring_ok_def list_all_iff)
  have len: "length (?r # ns) \<le> length ?h"
    using dist bound r by (intro distinct_below_length) auto
  show ?thesis
  proof (cases ns)
    case Nil
    with nx r show ?thesis
      by (cases "length ?h") (auto simp: ring_nodes_def)
  next
    case (Cons x xs)
    with nx have first: "NEXT (?h ! ?r) = x" and rest: "path (\<lambda>a. NEXT (?h ! a)) x xs ?r"
      by auto
    have "walk ?h ?r (length ?h) x = Some (x # xs)"
      using rest dist bound len Cons by (intro walk_path) auto
    with first Cons show ?thesis by (simp add: ring_nodes_def)
  qed
qed

lemma ring_ok_invariant:
  assumes "ring_ok s ns"
  shows "structural_invariant s"
proof -
  from assms have d: "distinct (map snd (entries s))"
    and e: "set (map snd (entries s)) = set ns" and dn: "distinct ns"
    and r: "root s \<notin> set ns" and cap: "int (length ns) \<le> max_size s"
    by (simp_all add: ring_ok_def)
  have "length (map snd (entries s)) = length ns"
    using d dn e by (metis distinct_card)
  with r e cap ring_ok_nodes[OF assms] show ?thesis
    by (simp add: structural_invariant_def)
qed

lemma ring_ok_empty: "0 \<le> C \<Longrightarrow> ring_ok (LRU_empty C) []"
  by (simp add: ring_ok_def LRU_empty_def)

lemma ring_ok_count:
  assumes "ring_ok s ns"
  shows "length (entries s) = length ns"
proof -
  from assms have "distinct (map snd (entries s))" "distinct ns"
    "set (map snd (entries s)) = set ns"
    by (simp_all add: ring_ok_def)
  then have "length (map snd (entries s)) = length ns" by (metis distinct_card)
  then show ?thesis by simp
qed

lemma ring_ok_last:
  assumes "ring_ok s ns"
  shows "PREV (heap s ! root s) = last (root s # ns)"
proof -
  from assms have "path (\<lambda>a. PREV (heap s ! a)) (root s) (rev ns) (root s)"
    by (simp add: ring_ok_def)
  from path_first[OF this] show ?thesis
    by (cases ns rule: rev_cases) simp_all
qed

lemma ring_ok_setitem_new:
  assumes ok: "ring_ok s ns" and fresh: "k \<notin> set (map fst (entries s))"
    and room: "int (length (entries s)) < max_size s"
  shows "LRU_setitem s k v = (Inr (), snd (LRU_setitem s k v))"
    and "ring_ok (snd (LRU_setitem s k v)) (ns @ [length (heap s)])"
    and "entries (snd (LRU_setitem s k v)) = entries s @ [(k, length (heap s))]"
    and "RESULT (heap (snd (LRU_setitem s k v)) ! length (heap s)) = v"
proof -
  let ?h = "heap s" and ?r = "root s"
  define new where "new = length ?h"
  define l where "l = PREV (?h ! ?r)"
  define h3 where "h3 = ((?h @ [\<lparr>PREV = l, NEXT = ?r, KEY = k, RESULT = v\<rparr>])
      [l := ((?h @ [\<lparr>PREV = l, NEXT = ?r, KEY = k, RESULT = v\<rparr>]) ! l)\<lparr>NEXT := new\<rparr>])
      [?r := (((?h @ [\<lparr>PREV = l, NEXT = ?r, KEY = k, RESULT = v\<rparr>])
      [l := ((?h @ [\<lparr>PREV = l, NEXT = ?r, KEY = k, RESULT = v\<rparr>]) ! l)\<lparr>NEXT := new\<rparr>]) ! ?r)
         \<lparr>PREV := new\<rparr>]"
  define s' where "s' = snd (LRU_setitem s k v)"
  from ok have r: "?r < length ?h" and bound: "\<forall>a \<in> set ns. a < length ?h"
    and dist: "distinct (?r # ns)"
    and nx: "path (\<lambda>a. NEXT (?h ! a)) ?r ns ?r"
    and pv: "path (\<lambda>a. PREV (?h ! a)) ?r (rev ns) ?r"
    and dk: "distinct (map fst (entries s))" and dl: "distinct (map snd (entries s))"
    and links: "set (map snd (entries s)) = set ns"
    and keys: "\<forall>(k, a) \<in> set (entries s). KEY (?h ! a) = k"
    and cap: "int (length ns) \<le> max_size s"
    by (simp_all add: ring_ok_def list_all_iff)
  have l_last: "l = last (?r # ns)"
    unfolding l_def by (rule ring_ok_last[OF ok])
  then have l_in: "l \<in> set (?r # ns)" by (metis last_in_set list.distinct(1))
  with r bound have l_lt: "l < length ?h" by auto
  have upd: "AList.update k new (entries s) = entries s @ [(k, new)]"
    using fresh by (intro update_fresh_key) simp
  have run: "LRU_setitem s k v = (Inr (), s\<lparr>entries := entries s @ [(k, new)], heap := h3\<rparr>)"
    using room upd by (simp add: LRU_setitem_def Let_def h3_def l_def new_def)
  then have s': "s' = s\<lparr>entries := entries s @ [(k, new)], heap := h3\<rparr>"
    by (simp add: s'_def)
  have len3: "length h3 = Suc (length ?h)" by (simp add: h3_def)
  have nx_old: "\<And>a. a < length ?h \<Longrightarrow> NEXT (h3 ! a) = (if a = l then new else NEXT (?h ! a))"
    using l_lt r by (auto simp: h3_def nth_list_update nth_append)
  have pv_old: "\<And>a. a < length ?h \<Longrightarrow> PREV (h3 ! a) = (if a = ?r then new else PREV (?h ! a))"
    using l_lt r by (auto simp: h3_def nth_list_update nth_append)
  have key_old: "\<And>a. a < length ?h \<Longrightarrow> KEY (h3 ! a) = KEY (?h ! a)"
    using l_lt r by (auto simp: h3_def nth_list_update nth_append)
  have at_new: "NEXT (h3 ! new) = ?r" "PREV (h3 ! new) = l" "KEY (h3 ! new) = k"
    "RESULT (h3 ! new) = v"
    using l_lt r by (auto simp: h3_def nth_list_update nth_append new_def)
  have new_notin: "new \<notin> set (?r # ns)"
    using r bound by (auto simp: new_def)
  have nx': "path (\<lambda>a. NEXT (h3 ! a)) ?r ns new"
  proof (rule path_end[OF nx dist])
    show "\<forall>c \<in> set (butlast (?r # ns)). NEXT (h3 ! c) = NEXT (?h ! c)"
    proof
      fix c assume c: "c \<in> set (butlast (?r # ns))"
      then have "c \<in> set (?r # ns)" by (rule in_set_butlastD)
      with r bound have lt: "c < length ?h" by auto
      from c dist have "c \<noteq> last (?r # ns)"
        by (metis append_butlast_last_id distinct_append disjoint_iff distinct.simps(2)
            list.distinct(1) list.set_intros(1))
      with lt l_last show "NEXT (h3 ! c) = NEXT (?h ! c)" by (simp add: nx_old)
    qed
    show "NEXT (h3 ! last (?r # ns)) = new"
      using l_last l_lt by (simp add: nx_old)
  qed
  have pv': "path (\<lambda>a. PREV (h3 ! a)) new (rev ns) ?r"
  proof (rule path_start[OF pv])
    show "PREV (h3 ! new) = PREV (?h ! ?r)" by (simp add: at_new l_def)
    show "\<forall>c \<in> set (rev ns). PREV (h3 ! c) = PREV (?h ! c)"
      using bound dist by (auto simp: pv_old)
  qed
  have "ring_ok s' (ns @ [new])"
    unfolding ring_ok_def list_all_iff
  proof (intro conjI)
    show "root s' < length (heap s')" using r by (simp add: s' len3)
    show "\<forall>a \<in> set (ns @ [new]). a < length (heap s')"
      using bound by (auto simp: s' len3 new_def)
    show "distinct (root s' # ns @ [new])" using dist new_notin by (auto simp: s')
    show "path (\<lambda>a. NEXT (heap s' ! a)) (root s') (ns @ [new]) (root s')"
      using nx' at_new by (simp add: s')
    show "path (\<lambda>a. PREV (heap s' ! a)) (root s') (rev (ns @ [new])) (root s')"
      using pv' r by (simp add: s' pv_old)
    show "distinct (map fst (entries s'))" using dk fresh by (simp add: s')
    show "distinct (map snd (entries s'))" using dl links new_notin by (simp add: s')
    show "set (map snd (entries s')) = set (ns @ [new])" using links by (simp add: s')
    show "\<forall>(k, a) \<in> set (entries s'). KEY (heap s' ! a) = k"
    proof (clarify)
      fix k' a assume "(k', a) \<in> set (entries s')"
      then consider "(k', a) \<in> set (entries s)" | "k' = k" "a = new" by (auto simp: s')
      then show "KEY (heap s' ! a) = k'"
      proof cases
        case 1
        then have "a \<in> set ns" using links by force
        with bound have "a < length ?h" by auto
        with 1 keys show ?thesis by (auto simp: s' key_old)
      next
        case 2
        then show ?thesis by (simp add: s' at_new)
      qed
    qed
    show "int (length (ns @ [new])) \<le> max_size s'"
      using room ring_ok_count[OF ok] by (simp add: s')
  qed
  then show "ring_ok (snd (LRU_setitem s k v)) (ns @ [length (heap s)])"
    by (simp add: s'_def new_def)
  show "LRU_setitem s k v = (Inr (), snd (LRU_setitem s k v))" by (simp add: run)
  show "entries (snd (LRU_setitem s k v)) = entries s @ [(k, length (heap s))]"
    by (simp add: run new_def)
  show "RESULT (heap (snd (LRU_setitem s k v)) ! length (heap s)) = v"
    using at_new(4) by (simp add: run new_def)
qed

lemma path_last: "path f a xs b \<Longrightarrow> f (last (a # xs)) = b"
  by (induction xs arbitrary: a) auto

lemma butlast_not_last:
  assumes "distinct zs" and "c \<in> set (butlast zs)"
  shows "c \<noteq> last zs"
proof (cases zs rule: rev_cases)
  case Nil
  with assms show ?thesis by simp
next
  case (snoc ys y)
  with assms show ?thesis by auto
qed

lemma ring_ok_getitem_hit:
  assumes ok: "ring_ok s ns" and hit: "map_of (entries s) k = Some x"
  shows "fst (LRU_getitem s k) = Inr (RESULT (heap s ! x))"
    and "ring_ok (snd (LRU_getitem s k)) (remove1 x ns @ [x])"
    and "entries (snd (LRU_getitem s k)) = entries s"
    and "hit_count (snd (LRU_getitem s k)) = hit_count s + 1"
    and "map RESULT (heap (snd (LRU_getitem s k))) = map RESULT (heap s)"
proof -
  let ?h = "heap s" and ?r = "root s"
  define p where "p = PREV (?h ! x)"
  define n where "n = NEXT (?h ! x)"
  define h1 where "h1 = ?h[p := (?h ! p)\<lparr>NEXT := n\<rparr>]"
  define h2 where "h2 = h1[n := (h1 ! n)\<lparr>PREV := p\<rparr>]"
  define l where "l = PREV (h2 ! ?r)"
  define h3 where "h3 = h2[l := (h2 ! l)\<lparr>NEXT := x\<rparr>]"
  define h4 where "h4 = h3[?r := (h3 ! ?r)\<lparr>PREV := x\<rparr>]"
  define h5 where "h5 = h4[x := (h4 ! x)\<lparr>PREV := l\<rparr>]"
  define h6 where "h6 = h5[x := (h5 ! x)\<lparr>NEXT := ?r\<rparr>]"
  define s' where "s' = snd (LRU_getitem s k)"
  have run: "LRU_getitem s k =
      (Inr (RESULT (?h ! x)), s\<lparr>heap := h6, hit_count := hit_count s + 1\<rparr>)"
    using hit
    by (simp add: LRU_getitem_def Let_def h6_def h5_def h4_def h3_def l_def h2_def h1_def
        n_def p_def)
  then have s': "s' = s\<lparr>heap := h6, hit_count := hit_count s + 1\<rparr>"
    by (simp add: s'_def)
  from ok have r: "?r < length ?h" and bound: "\<forall>a \<in> set ns. a < length ?h"
    and dist: "distinct (?r # ns)"
    and nx: "path (\<lambda>a. NEXT (?h ! a)) ?r ns ?r"
    and pv: "path (\<lambda>a. PREV (?h ! a)) ?r (rev ns) ?r"
    and dk: "distinct (map fst (entries s))" and dl: "distinct (map snd (entries s))"
    and links: "set (map snd (entries s)) = set ns"
    and keys: "\<forall>(k, a) \<in> set (entries s). KEY (?h ! a) = k"
    and cap: "int (length ns) \<le> max_size s"
    by (simp_all add: ring_ok_def list_all_iff)
  from hit have "(k, x) \<in> set (entries s)" by (rule map_of_SomeD)
  then have "x \<in> set (map snd (entries s))" by force
  with links have x_in: "x \<in> set ns" by simp
  then obtain xs ys where ns: "ns = xs @ x # ys" by (auto dest: split_list)
  from dist ns have x_xs: "x \<notin> set xs" and x_ys: "x \<notin> set ys" and x_r: "x \<noteq> ?r"
    and r_xs: "?r \<notin> set xs" and r_ys: "?r \<notin> set ys" and xs_ys: "set xs \<inter> set ys = {}"
    and d_xs: "distinct (?r # xs)" and d_ys: "distinct ys"
    by auto
  have rem: "remove1 x ns = xs @ ys"
    using x_xs by (simp add: ns remove1_append)
  from nx ns have nx_xs: "path (\<lambda>a. NEXT (?h ! a)) ?r xs x"
    and nx_ys: "path (\<lambda>a. NEXT (?h ! a)) x ys ?r" by simp_all
  from pv ns have pv_ys: "path (\<lambda>a. PREV (?h ! a)) ?r (rev ys) x"
    and pv_xs: "path (\<lambda>a. PREV (?h ! a)) x (rev xs) ?r" by simp_all
  have p_last: "p = last (?r # xs)"
    using path_first[OF pv_xs] by (cases xs rule: rev_cases) (simp_all add: p_def)
  have n_first: "n = hd (ys @ [?r])"
    using path_first[OF nx_ys] by (simp add: n_def)
  have p_in: "p \<in> set (?r # xs)"
    unfolding p_last by (rule last_in_set) simp
  have n_in: "n \<in> set (ys @ [?r])"
    unfolding n_first by (rule hd_in_set) simp
  from bound ns r have x_lt: "x < length ?h" and xs_lt: "\<forall>a \<in> set xs. a < length ?h"
    and ys_lt: "\<forall>a \<in> set ys. a < length ?h" by auto
  from p_in r xs_lt have p_lt: "p < length ?h" by auto
  from n_in r ys_lt have n_lt: "n < length ?h" by auto
  have l_eq: "l = (if ys = [] then p else last ys)"
  proof (cases ys)
    case Nil
    with n_first have "n = ?r" by simp
    with r p_lt show ?thesis by (simp add: l_def h2_def h1_def Nil)
  next
    case (Cons y ys')
    with n_first r_ys have "n \<noteq> ?r" by auto
    then have "l = PREV (?h ! ?r)"
      using r p_lt n_lt by (auto simp: l_def h2_def h1_def nth_list_update)
    also have "\<dots> = last (?r # ns)" by (rule ring_ok_last[OF ok])
    finally show ?thesis by (simp add: ns Cons)
  qed
  have l_in: "l \<in> set (?r # xs @ ys)"
    using l_eq p_in by (cases ys rule: rev_cases) auto
  with r xs_lt ys_lt have l_lt: "l < length ?h" by auto
  have l_x: "l \<noteq> x" using l_in x_xs x_ys x_r by auto
  have len6: "length h6 = length ?h"
    by (simp add: h6_def h5_def h4_def h3_def h2_def h1_def)
  have nx6: "\<And>a. a < length ?h \<Longrightarrow>
      NEXT (h6 ! a) = (if a = x then ?r else if a = l then x else if a = p then n
                        else NEXT (?h ! a))"
    using r x_lt p_lt n_lt l_lt
    by (auto simp: h6_def h5_def h4_def h3_def h2_def h1_def nth_list_update)
  have pv6: "\<And>a. a < length ?h \<Longrightarrow>
      PREV (h6 ! a) = (if a = x then l else if a = ?r then x else if a = n then p
                        else PREV (?h ! a))"
    using r x_lt p_lt n_lt l_lt
    by (auto simp: h6_def h5_def h4_def h3_def h2_def h1_def nth_list_update)
  have key6: "\<And>a. a < length ?h \<Longrightarrow> KEY (h6 ! a) = KEY (?h ! a)"
    using r x_lt p_lt n_lt l_lt
    by (auto simp: h6_def h5_def h4_def h3_def h2_def h1_def nth_list_update)
  have res6: "\<And>a. a < length ?h \<Longrightarrow> RESULT (h6 ! a) = RESULT (?h ! a)"
    using r x_lt p_lt n_lt l_lt
    by (auto simp: h6_def h5_def h4_def h3_def h2_def h1_def nth_list_update)
  have nx_new: "path (\<lambda>a. NEXT (h6 ! a)) ?r (xs @ ys @ [x]) ?r"
  proof (cases ys)
    case Nil
    then have l_p: "l = p" using l_eq by simp
    have "path (\<lambda>a. NEXT (h6 ! a)) ?r xs x"
    proof (rule path_end[OF nx_xs d_xs])
      show "\<forall>c \<in> set (butlast (?r # xs)). NEXT (h6 ! c) = NEXT (?h ! c)"
      proof
        fix c assume c: "c \<in> set (butlast (?r # xs))"
        then have cin: "c \<in> set (?r # xs)" by (rule in_set_butlastD)
        with r xs_lt have lt: "c < length ?h" by auto
        from butlast_not_last[OF d_xs c] have "c \<noteq> p" by (simp add: p_last)
        moreover from cin x_xs x_r have "c \<noteq> x" by auto
        ultimately show "NEXT (h6 ! c) = NEXT (?h ! c)" using lt l_p by (simp add: nx6)
      qed
      show "NEXT (h6 ! last (?r # xs)) = x"
        unfolding p_last[symmetric] using p_lt l_p l_x by (simp add: nx6)
    qed
    then show ?thesis using x_lt by (simp add: Nil nx6)
  next
    case (Cons y ys')
    then have n_y: "n = y" using n_first by simp
    from Cons l_eq have l_last: "l = last (y # ys')" by simp
    from Cons nx_ys have nx_ys': "path (\<lambda>a. NEXT (?h ! a)) y ys' ?r" by simp
    from Cons d_ys have d_ys': "distinct (y # ys')" by simp
    have l_ys: "l \<in> set ys" unfolding l_last Cons by (rule last_in_set) simp
    have a: "path (\<lambda>a. NEXT (h6 ! a)) ?r xs y"
    proof (rule path_end[OF nx_xs d_xs])
      show "\<forall>c \<in> set (butlast (?r # xs)). NEXT (h6 ! c) = NEXT (?h ! c)"
      proof
        fix c assume c: "c \<in> set (butlast (?r # xs))"
        then have cin: "c \<in> set (?r # xs)" by (rule in_set_butlastD)
        with r xs_lt have lt: "c < length ?h" by auto
        from butlast_not_last[OF d_xs c] have "c \<noteq> p" by (simp add: p_last)
        moreover from cin x_xs x_r have "c \<noteq> x" by auto
        moreover from cin l_ys r_ys xs_ys have "c \<noteq> l" by auto
        ultimately show "NEXT (h6 ! c) = NEXT (?h ! c)" using lt by (simp add: nx6)
      qed
      have "p \<noteq> l" using p_in l_ys r_ys xs_ys by auto
      moreover have "p \<noteq> x" using p_in x_xs x_r by auto
      ultimately show "NEXT (h6 ! last (?r # xs)) = y"
        unfolding p_last[symmetric] using p_lt n_y by (simp add: nx6)
    qed
    have b: "path (\<lambda>a. NEXT (h6 ! a)) y ys' x"
    proof (rule path_end[OF nx_ys' d_ys'])
      show "\<forall>c \<in> set (butlast (y # ys')). NEXT (h6 ! c) = NEXT (?h ! c)"
      proof
        fix c assume c: "c \<in> set (butlast (y # ys'))"
        then have cin: "c \<in> set ys" unfolding Cons by (rule in_set_butlastD)
        with ys_lt have lt: "c < length ?h" by auto
        from butlast_not_last[OF d_ys' c] have "c \<noteq> l" by (simp add: l_last)
        moreover from cin x_ys have "c \<noteq> x" by auto
        moreover from cin p_in r_ys xs_ys have "c \<noteq> p" by auto
        ultimately show "NEXT (h6 ! c) = NEXT (?h ! c)" using lt by (simp add: nx6)
      qed
      show "NEXT (h6 ! last (y # ys')) = x"
        unfolding l_last[symmetric] using l_lt l_x by (simp add: nx6)
    qed
    from a b show ?thesis using x_lt by (simp add: Cons nx6)
  qed
  have pv_new: "path (\<lambda>a. PREV (h6 ! a)) ?r (rev (xs @ ys @ [x])) ?r"
  proof (cases ys rule: rev_cases)
    case Nil
    then have l_p: "l = p" and n_r: "n = ?r" using l_eq n_first by simp_all
    have "path (\<lambda>a. PREV (h6 ! a)) x (rev xs) ?r"
    proof (rule path_start[OF pv_xs])
      show "PREV (h6 ! x) = PREV (?h ! x)" using x_lt l_p by (simp add: pv6 p_def)
      show "\<forall>c \<in> set (rev xs). PREV (h6 ! c) = PREV (?h ! c)"
        using xs_lt x_xs r_xs n_r by (auto simp: pv6)
    qed
    then show ?thesis using r x_r by (simp add: Nil pv6)
  next
    case (snoc ys' y')
    then have "ys \<noteq> []" by simp
    then obtain y ys'' where ys: "ys = y # ys''" by (auto simp: neq_Nil_conv)
    then have n_y: "n = y" using n_first by simp
    have y_ys: "y \<in> set ys" by (simp add: ys)
    have l_last: "l = y'" using l_eq snoc by simp
    have pv_r: "PREV (?h ! ?r) = l"
      using ring_ok_last[OF ok] l_last by (simp add: ns snoc)
    from pv_ys ys have pv_ys'': "path (\<lambda>a. PREV (?h ! a)) ?r (rev ys'') y" by simp
    have a: "path (\<lambda>a. PREV (h6 ! a)) x (rev ys'') y"
    proof (rule path_start[OF pv_ys''])
      show "PREV (h6 ! x) = PREV (?h ! ?r)" using x_lt by (simp add: pv6 pv_r)
      show "\<forall>c \<in> set (rev ys''). PREV (h6 ! c) = PREV (?h ! c)"
        using ys_lt x_ys r_ys d_ys n_y ys by (auto simp: pv6)
    qed
    have b: "path (\<lambda>a. PREV (h6 ! a)) y (rev xs) ?r"
    proof (rule path_start[OF pv_xs])
      show "PREV (h6 ! y) = PREV (?h ! x)"
        using ys_lt y_ys x_ys r_ys n_y by (auto simp: pv6 p_def)
      show "\<forall>c \<in> set (rev xs). PREV (h6 ! c) = PREV (?h ! c)"
        using xs_lt x_xs r_xs xs_ys y_ys n_y by (auto simp: pv6)
    qed
    from a b show ?thesis using r x_r by (simp add: ys pv6)
  qed
  have "ring_ok s' (xs @ ys @ [x])"
    unfolding ring_ok_def list_all_iff
  proof (intro conjI)
    show "root s' < length (heap s')" using r by (simp add: s' len6)
    show "\<forall>a \<in> set (xs @ ys @ [x]). a < length (heap s')"
      using xs_lt ys_lt x_lt by (auto simp: s' len6)
    show "distinct (root s' # xs @ ys @ [x])" using dist by (auto simp: s' ns)
    show "path (\<lambda>a. NEXT (heap s' ! a)) (root s') (xs @ ys @ [x]) (root s')"
      using nx_new by (simp add: s')
    show "path (\<lambda>a. PREV (heap s' ! a)) (root s') (rev (xs @ ys @ [x])) (root s')"
      using pv_new by (simp add: s')
    show "distinct (map fst (entries s'))" using dk by (simp add: s')
    show "distinct (map snd (entries s'))" using dl by (simp add: s')
    show "set (map snd (entries s')) = set (xs @ ys @ [x])"
      using links by (auto simp: s' ns)
    show "\<forall>(k, a) \<in> set (entries s'). KEY (heap s' ! a) = k"
    proof (clarify)
      fix k' a assume e: "(k', a) \<in> set (entries s')"
      then have "a \<in> set ns" using links by (force simp: s')
      with bound have "a < length ?h" by auto
      with e keys show "KEY (heap s' ! a) = k'" by (auto simp: s' key6)
    qed
    show "int (length (xs @ ys @ [x])) \<le> max_size s'"
      using cap by (simp add: s' ns)
  qed
  then show "ring_ok (snd (LRU_getitem s k)) (remove1 x ns @ [x])"
    by (simp add: s'_def rem)
  show "fst (LRU_getitem s k) = Inr (RESULT (heap s ! x))" by (simp add: run)
  show "entries (snd (LRU_getitem s k)) = entries s" by (simp add: run)
  show "hit_count (snd (LRU_getitem s k)) = hit_count s + 1" by (simp add: run)
  show "map RESULT (heap (snd (LRU_getitem s k))) = map RESULT (heap s)"
    using res6 len6 by (simp add: run list_eq_iff_nth_eq)
qed

lemma value_map_cong:
  assumes "distinct (map fst (entries s))" and "entries s' = entries s"
    and "\<forall>a \<in> set (map snd (entries s)). RESULT (heap s' ! a) = RESULT (heap s ! a)"
  shows "LRU_get_value_map s' = LRU_get_value_map s"
proof -
  have "map (\<lambda>(k, a). (k, RESULT (heap s' ! a))) (entries s)
      = map (\<lambda>(k, a). (k, RESULT (heap s ! a))) (entries s)"
    using assms(3) by (auto simp: map_eq_conv)
  with assms(1,2) show ?thesis
    by (simp add: value_map_entries)
qed

lemma ring_ok_links_bound:
  assumes "ring_ok s ns"
  shows "\<forall>a \<in> set (map snd (entries s)). a < length (heap s)"
  using assms by (simp add: ring_ok_def list_all_iff)

lemma ring_ok_keys: "ring_ok s ns \<Longrightarrow> distinct (map fst (entries s))"
  by (simp add: ring_ok_def)

text \<open>
  A hit on a well-formed ring: the lookup returns the result stored in the key's link,
  moves that link to the newest end of the ring and leaves the other links in their
  order; the index and the value map are unchanged, the ring is well formed again and
  the structural invariant holds.
\<close>

theorem LRU_hit_keeps_ring:
  assumes "ring_ok s ns" and "map_of (entries s) k = Some x"
  shows "fst (LRU_getitem s k) = Inr (RESULT (heap s ! x))
         \<and> ring_ok (snd (LRU_getitem s k)) (remove1 x ns @ [x])
         \<and> ring_nodes (snd (LRU_getitem s k)) = Some (remove1 x ns @ [x])
         \<and> structural_invariant (snd (LRU_getitem s k))
         \<and> entries (snd (LRU_getitem s k)) = entries s
         \<and> LRU_get_value_map (snd (LRU_getitem s k)) = LRU_get_value_map s
         \<and> hit_count (snd (LRU_getitem s k)) = hit_count s + 1"
proof -
  note hit = ring_ok_getitem_hit[OF assms]
  have "\<forall>a \<in> set (map snd (entries s)).
      RESULT (heap (snd (LRU_getitem s k)) ! a) = RESULT (heap s ! a)"
  proof
    fix a assume "a \<in> set (map snd (entries s))"
    with ring_ok_links_bound[OF assms(1)] have lt: "a < length (heap s)" by blast
    moreover from hit(5) have "length (heap (snd (LRU_getitem s k))) = length (heap s)"
      by (metis length_map)
    ultimately show "RESULT (heap (snd (LRU_getitem s k)) ! a) = RESULT (heap s ! a)"
      using hit(5) by (metis nth_map)
  qed
  then have "LRU_get_value_map (snd (LRU_getitem s k)) = LRU_get_value_map s"
    by (intro value_map_cong ring_ok_keys[OF assms(1)] hit(3))
  with hit ring_ok_nodes[OF hit(2)] ring_ok_invariant[OF hit(2)] show ?thesis by simp
qed

theorem LRU_hit_keeps_ring_witness:
  "ring_ok (snd (LRU_setitem (snd (LRU_setitem (LRU_empty 2 :: (string, int) LRU)
        (Some ''a'') (Some 1))) (Some ''b'') (Some 2))) [1, 2]
   \<and> ring_nodes (snd (LRU_getitem
        (snd (LRU_setitem (snd (LRU_setitem (LRU_empty 2 :: (string, int) LRU)
        (Some ''a'') (Some 1))) (Some ''b'') (Some 2))) (Some ''a''))) = Some [2, 1]
   \<and> fst (LRU_getitem
        (snd (LRU_setitem (snd (LRU_setitem (LRU_empty 2 :: (string, int) LRU)
        (Some ''a'') (Some 1))) (Some ''b'') (Some 2))) (Some ''a'')) = Inr (Some 1)"
proof -
  let ?s = "snd (LRU_setitem (snd (LRU_setitem (LRU_empty 2 :: (string, int) LRU)
        (Some ''a'') (Some 1))) (Some ''b'') (Some 2))"
  have ok: "ring_ok ?s [1, 2]"
    by (simp add: lru_defs ring_ok_def numeral_2_eq_2)
  have hit: "map_of (entries ?s) (Some ''a'') = Some 1"
    by (simp add: lru_defs)
  have res: "RESULT (heap ?s ! 1) = Some 1"
    by (simp add: lru_defs)
  from LRU_hit_keeps_ring[OF ok hit] ok res show ?thesis
    by simp
qed

text \<open>
  The insertion of a new key below capacity into a well-formed ring: the call returns,
  the new link is appended at the newest end of the ring, the value map gains the new
  pair and keeps the others, the ring is well formed again and the structural invariant
  holds.
\<close>

theorem LRU_new_key_keeps_ring:
  assumes "ring_ok s ns" and "k \<notin> set (map fst (entries s))"
    and "int (length (entries s)) < max_size s"
  shows "fst (LRU_setitem s k v) = Inr ()
         \<and> ring_ok (snd (LRU_setitem s k v)) (ns @ [length (heap s)])
         \<and> ring_nodes (snd (LRU_setitem s k v)) = Some (ns @ [length (heap s)])
         \<and> structural_invariant (snd (LRU_setitem s k v))
         \<and> map fst (entries (snd (LRU_setitem s k v))) = map fst (entries s) @ [k]
         \<and> map_of (LRU_get_value_map (snd (LRU_setitem s k v))) k = Some v"
proof -
  note new = ring_ok_setitem_new[OF assms, of v]
  have dk: "distinct (map fst (entries (snd (LRU_setitem s k v))))"
    by (rule ring_ok_keys[OF new(2)])
  have "(k, v) \<in> set (LRU_get_value_map (snd (LRU_setitem s k v)))"
    using new(3,4) by (simp add: value_map_entries[OF dk])
  moreover have "distinct (map fst (LRU_get_value_map (snd (LRU_setitem s k v))))"
    using dk by (simp add: value_map_keys)
  ultimately have "map_of (LRU_get_value_map (snd (LRU_setitem s k v))) k = Some v"
    by (rule map_of_is_SomeI[rotated])
  moreover have "fst (LRU_setitem s k v) = Inr ()"
    using new(1) by (metis fst_conv)
  ultimately show ?thesis
    using new(2,3) ring_ok_nodes[OF new(2)] ring_ok_invariant[OF new(2)] by simp
qed

theorem LRU_new_key_keeps_ring_witness:
  "ring_ok (snd (LRU_setitem (LRU_empty 2 :: (string, int) LRU) (Some ''a'') (Some 1))) [1]
   \<and> ring_nodes (snd (LRU_setitem
        (snd (LRU_setitem (LRU_empty 2 :: (string, int) LRU) (Some ''a'') (Some 1)))
        (Some ''b'') (Some 2))) = Some [1, 2]
   \<and> structural_invariant (snd (LRU_setitem
        (snd (LRU_setitem (LRU_empty 2 :: (string, int) LRU) (Some ''a'') (Some 1)))
        (Some ''b'') (Some 2)))"
proof -
  let ?s = "snd (LRU_setitem (LRU_empty 2 :: (string, int) LRU) (Some ''a'') (Some 1))"
  have ok: "ring_ok ?s [1]"
    by (simp add: lru_defs ring_ok_def)
  have fresh: "Some ''b'' \<notin> set (map fst (entries ?s))"
    by (simp add: lru_defs)
  have room: "int (length (entries ?s)) < max_size ?s"
    by (simp add: lru_defs)
  have len: "length (heap ?s) = 2"
    by (simp add: lru_defs)
  from LRU_new_key_keeps_ring[OF ok fresh room, of "Some 2"] ok len show ?thesis
    by simp
qed

text \<open>
  An empty cache of any capacity \<open>C \<ge> 0\<close> is a well-formed ring, and every
  well-formed ring satisfies the structural invariant: the walk from the root finds
  exactly its links.
\<close>

theorem LRU_ring_invariant:
  "(0 \<le> C \<longrightarrow> ring_ok (LRU_empty C :: ('k, 'v) LRU) [])
   \<and> (ring_ok (s :: ('k, 'v) LRU) ns \<longrightarrow> ring_nodes s = Some ns \<and> structural_invariant s
        \<and> length (entries s) = length ns)"
  using ring_ok_empty[of C] ring_ok_nodes[of s ns] ring_ok_invariant[of s ns]
    ring_ok_count[of s ns]
  by blast

theorem LRU_ring_invariant_witness:
  "ring_ok (LRU_empty 3 :: (string, int) LRU) []
   \<and> structural_invariant (LRU_empty 3 :: (string, int) LRU)
   \<and> ring_nodes (LRU_empty 3 :: (string, int) LRU) = Some []"
  using LRU_ring_invariant[of 3 "LRU_empty 3 :: (string, int) LRU" "[]"]
  by simp

end
